theory Spec2Isabelle
  imports Main "HOL-Library.AList"
begin

section \<open>Values, maps and the store\<close>

text \<open>
  The package \<open>spec\<close> compiles filter, update and pipeline builders into
  \<open>bson.M\<close> documents. A \<open>bson.M\<close> is a Go map, hence a reference: two
  values of that type may denote the same map, and a write through one is seen through
  the other. The store below keeps the contents of every allocated map under its
  address; a value of type \<open>bson.M\<close> is either the nil map or an address.

  A value of Go's type \<open>any\<close> is modelled by \<open>val\<close>. Slices are never
  written to by the package once built, so a slice is modelled by the list of its
  elements (\<open>VArr\<close>), whatever its static element type. Integers are never
  computed with, so \<open>int\<close>, \<open>int64\<close> are modelled by \<open>int\<close>.
\<close>

type_synonym addr = nat

datatype mapref = NilMap | MapAt addr

datatype val =
    VNil
  | VBool bool
  | VInt int
  | VStr string
  | VArr "val list"
  | VMap mapref

text \<open>
  The contents of one map: an association list read by \<open>map_of\<close>. Go leaves the
  order in which \<open>range\<close> visits a map unspecified; the model visits every key
  once, in the order of the list. Each loop of the package that ranges over a map
  writes, in each iteration, the key that the iteration visits, so another order gives
  the same maps, with their association lists in another order.
\<close>

type_synonym bsonM = "(string \<times> val) list"

type_synonym heap = "bsonM list"

definition alloc :: "bsonM \<Rightarrow> heap \<Rightarrow> addr \<times> heap" where
  "alloc m h = (length h, h @ [m])"

definition cell :: "heap \<Rightarrow> addr \<Rightarrow> bsonM" where
  "cell h a = (if a < length h then h ! a else [])"

text \<open>\<open>range m\<close>: the entries of a map; ranging over the nil map visits nothing.\<close>

fun entries :: "heap \<Rightarrow> mapref \<Rightarrow> bsonM" where
  "entries h NilMap = []"
| "entries h (MapAt a) = AList.clearjunk (cell h a)"

text \<open>\<open>m[k] = v\<close>: a write to the nil map panics (\<open>None\<close>).\<close>

fun put :: "heap \<Rightarrow> mapref \<Rightarrow> string \<Rightarrow> val \<Rightarrow> heap option" where
  "put h NilMap k v = None"
| "put h (MapAt a) k v = Some (h[a := AList.update k v (cell h a)])"

section \<open>Filters (spec.go, logical.go)\<close>

text \<open>
  \<open>Filter\<close> is an interface; a value of that type is nil (\<open>None\<close>) or one of
  the package's seven struct types, which are not exported.
\<close>

datatype filter =
    eqFilter string val
  | opFilter string string val
  | regexFilter string string string
  | elemMatchFilter string "filter option"
  | andFilter "filter option list"
  | orFilter "filter option list"
  | notFilter "filter option"

text \<open>
  \<open>ToMongo\<close> returns the address of the compiled map and the new store, or
  \<open>None\<close> when the call panics (a method call on a nil interface value).
  \<open>ToMongo_parts\<close> is the loop of \<open>andFilter.ToMongo\<close> and
  \<open>orFilter.ToMongo\<close> that collects the compiled children, skipping nil.
\<close>

fun ToMongo :: "filter \<Rightarrow> heap \<Rightarrow> (addr \<times> heap) option"
  and ToMongo_parts :: "filter option list \<Rightarrow> heap \<Rightarrow> (addr list \<times> heap) option"
where
  "ToMongo (eqFilter field v) h = Some (alloc [(field, v)] h)"
| "ToMongo (opFilter field op v) h =
     (let (a, h1) = alloc [(op, v)] h
      in Some (alloc [(field, VMap (MapAt a))] h1))"
| "ToMongo (regexFilter field pattern opts) h =
     (if opts = []
      then (let (a, h1) = alloc [(''$regex'', VStr pattern)] h
            in Some (alloc [(field, VMap (MapAt a))] h1))
      else (let (a, h1) = alloc [(''$regex'', VStr pattern), (''$options'', VStr opts)] h
            in Some (alloc [(field, VMap (MapAt a))] h1)))"
| "ToMongo (elemMatchFilter field None) h =
     (let (e, h1) = alloc [] h;
          (a, h2) = alloc [(''$elemMatch'', VMap (MapAt e))] h1
      in Some (alloc [(field, VMap (MapAt a))] h2))"
| "ToMongo (elemMatchFilter field (Some flt)) h =
     (case ToMongo flt h of
        None \<Rightarrow> None
      | Some (e, h1) \<Rightarrow>
          (let (a, h2) = alloc [(''$elemMatch'', VMap (MapAt e))] h1
           in Some (alloc [(field, VMap (MapAt a))] h2)))"
| "ToMongo (andFilter filters) h =
     (case ToMongo_parts filters h of
        None \<Rightarrow> None
      | Some (parts, h1) \<Rightarrow>
          (if length parts = 1 then Some (hd parts, h1)
           else Some (alloc [(''$and'', VArr (map (\<lambda>a. VMap (MapAt a)) parts))] h1)))"
| "ToMongo (orFilter filters) h =
     (case ToMongo_parts filters h of
        None \<Rightarrow> None
      | Some (parts, h1) \<Rightarrow>
          (if length parts = 1 then Some (hd parts, h1)
           else Some (alloc [(''$or'', VArr (map (\<lambda>a. VMap (MapAt a)) parts))] h1)))"
| "ToMongo (notFilter None) h = None"
| "ToMongo (notFilter (Some flt)) h =
     (case ToMongo flt h of
        None \<Rightarrow> None
      | Some (a, h1) \<Rightarrow> Some (alloc [(''$nor'', VArr [VMap (MapAt a)])] h1))"
| "ToMongo_parts [] h = Some ([], h)"
| "ToMongo_parts (None # rest) h = ToMongo_parts rest h"
| "ToMongo_parts (Some flt # rest) h =
     (case ToMongo flt h of
        None \<Rightarrow> None
      | Some (a, h1) \<Rightarrow>
          (case ToMongo_parts rest h1 of
             None \<Rightarrow> None
           | Some (parts, h2) \<Rightarrow> Some (a # parts, h2)))"

text \<open>A method call on a \<open>Filter\<close> value: on nil it panics.\<close>

fun compile :: "filter option \<Rightarrow> heap \<Rightarrow> (addr \<times> heap) option" where
  "compile None h = None"
| "compile (Some flt) h = ToMongo flt h"

subsection \<open>Constructors\<close>

definition Eq :: "string \<Rightarrow> val \<Rightarrow> filter option" where
  "Eq field v = Some (eqFilter field v)"

definition Ne :: "string \<Rightarrow> val \<Rightarrow> filter option" where
  "Ne field v = Some (opFilter field ''$ne'' v)"

definition Gt :: "string \<Rightarrow> val \<Rightarrow> filter option" where
  "Gt field v = Some (opFilter field ''$gt'' v)"

definition Gte :: "string \<Rightarrow> val \<Rightarrow> filter option" where
  "Gte field v = Some (opFilter field ''$gte'' v)"

definition Lt :: "string \<Rightarrow> val \<Rightarrow> filter option" where
  "Lt field v = Some (opFilter field ''$lt'' v)"

definition Lte :: "string \<Rightarrow> val \<Rightarrow> filter option" where
  "Lte field v = Some (opFilter field ''$lte'' v)"

definition In :: "string \<Rightarrow> val \<Rightarrow> filter option" where
  "In field vs = Some (opFilter field ''$in'' vs)"

definition NotIn :: "string \<Rightarrow> val \<Rightarrow> filter option" where
  "NotIn field vs = Some (opFilter field ''$nin'' vs)"

definition Exists :: "string \<Rightarrow> bool \<Rightarrow> filter option" where
  "Exists field b = Some (opFilter field ''$exists'' (VBool b))"

definition Nin :: "string \<Rightarrow> val \<Rightarrow> filter option" where
  "Nin field vs = NotIn field vs"

text \<open>\<open>Regex\<close> is variadic in its options; only the first one is used.\<close>

definition Regex :: "string \<Rightarrow> string \<Rightarrow> string list \<Rightarrow> filter option" where
  "Regex field pattern options =
     (let opts = (if length options > 0 then hd options else [])
      in Some (regexFilter field pattern opts))"

definition All_filter :: "string \<Rightarrow> val \<Rightarrow> filter option" where
  "All_filter field vs = Some (opFilter field ''$all'' vs)"

definition Size :: "string \<Rightarrow> int \<Rightarrow> filter option" where
  "Size field n = Some (opFilter field ''$size'' (VInt n))"

definition ElemMatch :: "string \<Rightarrow> filter option \<Rightarrow> filter option" where
  "ElemMatch field flt = Some (elemMatchFilter field flt)"

text \<open>
  The loop of \<open>And\<close>: nil arguments are skipped, the children of an
  \<open>andFilter\<close> argument are appended in its place, any other argument is appended.
\<close>

fun And_flat :: "filter option list \<Rightarrow> filter option list" where
  "And_flat [] = []"
| "And_flat (None # rest) = And_flat rest"
| "And_flat (Some (andFilter fs) # rest) = fs @ And_flat rest"
| "And_flat (Some f # rest) = Some f # And_flat rest"

definition And :: "filter option list \<Rightarrow> filter option" where
  "And filters =
     (let flat = And_flat filters
      in if length flat = 0 then None
         else if length flat = 1 then hd flat
         else Some (andFilter flat))"

fun Or_flat :: "filter option list \<Rightarrow> filter option list" where
  "Or_flat [] = []"
| "Or_flat (None # rest) = Or_flat rest"
| "Or_flat (Some (orFilter fs) # rest) = fs @ Or_flat rest"
| "Or_flat (Some f # rest) = Some f # Or_flat rest"

definition Or :: "filter option list \<Rightarrow> filter option" where
  "Or filters =
     (let flat = Or_flat filters
      in if length flat = 0 then None
         else if length flat = 1 then hd flat
         else Some (orFilter flat))"

definition Not_filter :: "filter option \<Rightarrow> filter option" where
  "Not_filter flt = (if flt = None then None else Some (notFilter flt))"

definition Between :: "string \<Rightarrow> val \<Rightarrow> val \<Rightarrow> filter option" where
  "Between field lo hi = And [Gte field lo, Lte field hi]"

subsection \<open>Filters that the exported functions can return\<close>

text \<open>
  The struct types are not exported, so a client of the package holds only the filters
  that the exported functions return, applied to nil or to filters obtained the same way.
\<close>

inductive built :: "filter option \<Rightarrow> bool" where
  b_nil: "built None"
| b_Eq: "built (Eq field v)"
| b_Ne: "built (Ne field v)"
| b_Gt: "built (Gt field v)"
| b_Gte: "built (Gte field v)"
| b_Lt: "built (Lt field v)"
| b_Lte: "built (Lte field v)"
| b_In: "built (In field v)"
| b_NotIn: "built (NotIn field v)"
| b_Exists: "built (Exists field b)"
| b_Nin: "built (Nin field v)"
| b_Regex: "built (Regex field pattern options)"
| b_All: "built (All_filter field v)"
| b_Size: "built (Size field n)"
| b_ElemMatch: "built flt \<Longrightarrow> built (ElemMatch field flt)"
| b_Between: "built (Between field lo hi)"
| b_And: "(\<And>x. x \<in> set filters \<Longrightarrow> built x) \<Longrightarrow> built (And filters)"
| b_Or: "(\<And>x. x \<in> set filters \<Longrightarrow> built x) \<Longrightarrow> built (Or filters)"
| b_Not: "built flt \<Longrightarrow> built (Not_filter flt)"

subsection \<open>The normal form of a filter\<close>

fun is_and :: "filter \<Rightarrow> bool" where
  "is_and (andFilter fs) = True"
| "is_and f = False"

fun is_or :: "filter \<Rightarrow> bool" where
  "is_or (orFilter fs) = True"
| "is_or f = False"

text \<open>
  \<open>normalized\<close>: every \<open>andFilter\<close> and \<open>orFilter\<close> in the tree has at least
  two children, none of them nil and none of them a container of the same kind, and no
  \<open>notFilter\<close> holds nil.
\<close>

fun normalized :: "filter \<Rightarrow> bool" where
  "normalized (eqFilter field v) = True"
| "normalized (opFilter field op v) = True"
| "normalized (regexFilter field pattern opts) = True"
| "normalized (elemMatchFilter field inner) =
     (case inner of None \<Rightarrow> True | Some g \<Rightarrow> normalized g)"
| "normalized (andFilter fs) =
     (2 \<le> length fs \<and>
      (\<forall>x \<in> set fs. case x of None \<Rightarrow> False | Some g \<Rightarrow> \<not> is_and g \<and> normalized g))"
| "normalized (orFilter fs) =
     (2 \<le> length fs \<and>
      (\<forall>x \<in> set fs. case x of None \<Rightarrow> False | Some g \<Rightarrow> \<not> is_or g \<and> normalized g))"
| "normalized (notFilter inner) =
     (case inner of None \<Rightarrow> False | Some g \<Rightarrow> normalized g)"

text \<open>A \<open>Filter\<close> value is in normal form when it is nil or a normalized node.\<close>

fun normal :: "filter option \<Rightarrow> bool" where
  "normal None = True"
| "normal (Some f) = normalized f"

section \<open>Updates (update.go)\<close>

text \<open>
  \<open>Update\<close> is an interface too: a value of that type is nil or one of the package's
  struct types. \<open>setFieldsUpdate\<close> keeps the map the caller passed to
  \<open>SetFields\<close>, by reference.
\<close>

datatype update =
    setUpdate string val
  | incUpdate string val
  | pushUpdate string val
  | pullUpdate string val
  | unsetUpdate string
  | setFieldsUpdate mapref
  | combinedUpdate "update option list"
  | addToSetUpdate string val
  | popUpdate string int
  | mulUpdate string val
  | minUpdate string val
  | maxUpdate string val
  | renameUpdate string string

text \<open>The literal \<open>bson.M{op: bson.M{field: v}}\<close>: two new maps.\<close>

definition op_doc :: "string \<Rightarrow> string \<Rightarrow> val \<Rightarrow> heap \<Rightarrow> addr \<times> heap" where
  "op_doc op field v h =
     (let (a, h1) = alloc [(field, v)] h
      in alloc [(op, VMap (MapAt a))] h1)"

text \<open>
  The innermost loop of \<open>combinedUpdate.ToBsonUpdate\<close>,
  \<open>for field, val := range newMap { existingMap[field] = val }\<close>,
  over the entries of \<open>newMap\<close>.
\<close>

fun merge_fields :: "mapref \<Rightarrow> bsonM \<Rightarrow> heap \<Rightarrow> heap option" where
  "merge_fields existingMap [] h = Some h"
| "merge_fields existingMap ((field, v) # rest) h =
     (case put h existingMap field v of
        None \<Rightarrow> None
      | Some h1 \<Rightarrow> merge_fields existingMap rest h1)"

text \<open>
  The body of the loop over one child's compiled map, for the entry \<open>(k, v)\<close>:
  when \<open>result[k]\<close> exists and both it and \<open>v\<close> are of type \<open>bson.M\<close>, the
  fields of \<open>v\<close> are written into the existing map; otherwise \<open>result[k] = v\<close>.
\<close>

fun merge_entry :: "addr \<Rightarrow> string \<times> val \<Rightarrow> heap \<Rightarrow> heap option" where
  "merge_entry result (k, v) h =
     (case map_of (cell h result) k of
        Some (VMap existingMap) \<Rightarrow>
          (case v of
             VMap newMap \<Rightarrow> merge_fields existingMap (entries h newMap) h
           | _ \<Rightarrow> put h (MapAt result) k v)
      | _ \<Rightarrow> put h (MapAt result) k v)"

fun merge_all :: "addr \<Rightarrow> bsonM \<Rightarrow> heap \<Rightarrow> heap option" where
  "merge_all result [] h = Some h"
| "merge_all result (kv # rest) h =
     (case merge_entry result kv h of
        None \<Rightarrow> None
      | Some h1 \<Rightarrow> merge_all result rest h1)"

text \<open>
  \<open>ToBsonUpdate\<close> returns the address of the compiled map and the new store, or
  \<open>None\<close> when the call panics. \<open>ToBsonUpdate_loop\<close> is the loop of
  \<open>combinedUpdate.ToBsonUpdate\<close> over the children.
\<close>

fun ToBsonUpdate :: "update \<Rightarrow> heap \<Rightarrow> (addr \<times> heap) option"
  and ToBsonUpdate_loop :: "addr \<Rightarrow> update option list \<Rightarrow> heap \<Rightarrow> heap option"
where
  "ToBsonUpdate (setUpdate field v) h = Some (op_doc ''$set'' field v h)"
| "ToBsonUpdate (incUpdate field v) h = Some (op_doc ''$inc'' field v h)"
| "ToBsonUpdate (pushUpdate field v) h = Some (op_doc ''$push'' field v h)"
| "ToBsonUpdate (pullUpdate field v) h = Some (op_doc ''$pull'' field v h)"
| "ToBsonUpdate (unsetUpdate field) h = Some (op_doc ''$unset'' field (VStr []) h)"
| "ToBsonUpdate (setFieldsUpdate fields) h = Some (alloc [(''$set'', VMap fields)] h)"
| "ToBsonUpdate (combinedUpdate updates) h =
     (case ToBsonUpdate_loop (length h) updates (h @ [[]]) of
        None \<Rightarrow> None
      | Some h2 \<Rightarrow> Some (length h, h2))"
| "ToBsonUpdate (addToSetUpdate field v) h = Some (op_doc ''$addToSet'' field v h)"
| "ToBsonUpdate (popUpdate field position) h = Some (op_doc ''$pop'' field (VInt position) h)"
| "ToBsonUpdate (mulUpdate field v) h = Some (op_doc ''$mul'' field v h)"
| "ToBsonUpdate (minUpdate field v) h = Some (op_doc ''$min'' field v h)"
| "ToBsonUpdate (maxUpdate field v) h = Some (op_doc ''$max'' field v h)"
| "ToBsonUpdate (renameUpdate oldField newField) h =
     Some (op_doc ''$rename'' oldField (VStr newField) h)"
| "ToBsonUpdate_loop result [] h = Some h"
| "ToBsonUpdate_loop result (None # rest) h = None"
| "ToBsonUpdate_loop result (Some u # rest) h =
     (case ToBsonUpdate u h of
        None \<Rightarrow> None
      | Some (m, h1) \<Rightarrow>
          (case merge_all result (entries h1 (MapAt m)) h1 of
             None \<Rightarrow> None
           | Some h2 \<Rightarrow> ToBsonUpdate_loop result rest h2))"

text \<open>A method call on an \<open>Update\<close> value: on nil it panics.\<close>

fun compile_update :: "update option \<Rightarrow> heap \<Rightarrow> (addr \<times> heap) option" where
  "compile_update None h = None"
| "compile_update (Some u) h = ToBsonUpdate u h"

subsection \<open>Constructors\<close>

definition Set :: "string \<Rightarrow> val \<Rightarrow> update option" where
  "Set field v = Some (setUpdate field v)"

definition Inc :: "string \<Rightarrow> val \<Rightarrow> update option" where
  "Inc field v = Some (incUpdate field v)"

definition Push :: "string \<Rightarrow> val \<Rightarrow> update option" where
  "Push field v = Some (pushUpdate field v)"

definition Pull :: "string \<Rightarrow> val \<Rightarrow> update option" where
  "Pull field v = Some (pullUpdate field v)"

definition Unset :: "string \<Rightarrow> update option" where
  "Unset field = Some (unsetUpdate field)"

definition SetFields :: "mapref \<Rightarrow> update option" where
  "SetFields fields = Some (setFieldsUpdate fields)"

fun Combine_nonNil :: "update option list \<Rightarrow> update option list" where
  "Combine_nonNil [] = []"
| "Combine_nonNil (None # rest) = Combine_nonNil rest"
| "Combine_nonNil (Some u # rest) = Some u # Combine_nonNil rest"

definition Combine :: "update option list \<Rightarrow> update option" where
  "Combine updates =
     (let nonNil = Combine_nonNil updates
      in if length nonNil = 0 then None
         else if length nonNil = 1 then hd nonNil
         else Some (combinedUpdate nonNil))"

definition AddToSet :: "string \<Rightarrow> val \<Rightarrow> update option" where
  "AddToSet field v = Some (addToSetUpdate field v)"

definition PopFirst :: "string \<Rightarrow> update option" where
  "PopFirst field = Some (popUpdate field (- 1))"

definition PopLast :: "string \<Rightarrow> update option" where
  "PopLast field = Some (popUpdate field 1)"

definition Mul :: "string \<Rightarrow> val \<Rightarrow> update option" where
  "Mul field v = Some (mulUpdate field v)"

definition Min_update :: "string \<Rightarrow> val \<Rightarrow> update option" where
  "Min_update field v = Some (minUpdate field v)"

definition Max_update :: "string \<Rightarrow> val \<Rightarrow> update option" where
  "Max_update field v = Some (maxUpdate field v)"

definition Rename :: "string \<Rightarrow> string \<Rightarrow> update option" where
  "Rename oldField newField = Some (renameUpdate oldField newField)"

section \<open>Pipelines (pipeline.go)\<close>

text \<open>
  A \<open>Pipeline\<close> holds the slice of its stages; each stage is a \<open>bson.M\<close>, kept
  by reference. Every method works on the builder it is called on and returns it, so
  the model passes the builder and the store along.
\<close>

record pipeline =
  stages :: "mapref list"

definition NewPipeline :: pipeline where
  "NewPipeline = \<lparr>stages = []\<rparr>"

definition ToPipeline :: "pipeline \<Rightarrow> mapref list" where
  "ToPipeline p = stages p"

text \<open>\<open>p.stages = append(p.stages, bson.M{...})\<close> with the contents of the new map.\<close>

definition add_stage :: "bsonM \<Rightarrow> pipeline \<Rightarrow> heap \<Rightarrow> pipeline \<times> heap" where
  "add_stage m p h =
     (let (a, h1) = alloc m h
      in (p\<lparr>stages := stages p @ [MapAt a]\<rparr>, h1))"

definition Pipeline_Match :: "filter option \<Rightarrow> pipeline \<Rightarrow> heap \<Rightarrow> (pipeline \<times> heap) option" where
  "Pipeline_Match flt p h =
     (case flt of
        None \<Rightarrow> Some (p, h)
      | Some f \<Rightarrow>
          (case ToMongo f h of
             None \<Rightarrow> None
           | Some (a, h1) \<Rightarrow> Some (add_stage [(''$match'', VMap (MapAt a))] p h1)))"

definition Pipeline_MatchRaw :: "mapref \<Rightarrow> pipeline \<Rightarrow> heap \<Rightarrow> pipeline \<times> heap" where
  "Pipeline_MatchRaw flt p h =
     (if flt \<noteq> NilMap then add_stage [(''$match'', VMap flt)] p h else (p, h))"

definition Pipeline_Project :: "mapref \<Rightarrow> pipeline \<Rightarrow> heap \<Rightarrow> pipeline \<times> heap" where
  "Pipeline_Project projection p h = add_stage [(''$project'', VMap projection)] p h"

definition Pipeline_Group :: "mapref \<Rightarrow> pipeline \<Rightarrow> heap \<Rightarrow> pipeline \<times> heap" where
  "Pipeline_Group groupSpec p h = add_stage [(''$group'', VMap groupSpec)] p h"

text \<open>
  The loop of \<open>GroupBy\<close>, \<open>for k, v := range accumulators { groupSpec[k] = v }\<close>,
  over the entries of \<open>accumulators\<close>; \<open>groupSpec\<close> is a map that was just made.
\<close>

fun copy_fields :: "addr \<Rightarrow> bsonM \<Rightarrow> heap \<Rightarrow> heap" where
  "copy_fields groupSpec [] h = h"
| "copy_fields groupSpec ((k, v) # rest) h =
     copy_fields groupSpec rest (h[groupSpec := AList.update k v (cell h groupSpec)])"

definition Pipeline_GroupBy :: "val \<Rightarrow> mapref \<Rightarrow> pipeline \<Rightarrow> heap \<Rightarrow> pipeline \<times> heap" where
  "Pipeline_GroupBy idExpr accumulators p h =
     (let (groupSpec, h1) = alloc [(''_id'', idExpr)] h;
          h2 = copy_fields groupSpec (entries h1 accumulators) h1
      in add_stage [(''$group'', VMap (MapAt groupSpec))] p h2)"

definition Pipeline_Sort :: "val \<Rightarrow> pipeline \<Rightarrow> heap \<Rightarrow> pipeline \<times> heap" where
  "Pipeline_Sort sort_spec p h = add_stage [(''$sort'', sort_spec)] p h"

definition Pipeline_SortBy :: "string \<Rightarrow> int \<Rightarrow> pipeline \<Rightarrow> heap \<Rightarrow> pipeline \<times> heap" where
  "Pipeline_SortBy field order p h =
     (let (a, h1) = alloc [(field, VInt order)] h
      in add_stage [(''$sort'', VMap (MapAt a))] p h1)"

definition Pipeline_Limit :: "int \<Rightarrow> pipeline \<Rightarrow> heap \<Rightarrow> pipeline \<times> heap" where
  "Pipeline_Limit n p h = add_stage [(''$limit'', VInt n)] p h"

definition Pipeline_Skip :: "int \<Rightarrow> pipeline \<Rightarrow> heap \<Rightarrow> pipeline \<times> heap" where
  "Pipeline_Skip n p h = add_stage [(''$skip'', VInt n)] p h"

definition Pipeline_Unwind :: "string \<Rightarrow> pipeline \<Rightarrow> heap \<Rightarrow> pipeline \<times> heap" where
  "Pipeline_Unwind path p h = add_stage [(''$unwind'', VStr path)] p h"

definition Pipeline_UnwindWithOptions ::
  "string \<Rightarrow> bool \<Rightarrow> string \<Rightarrow> pipeline \<Rightarrow> heap \<Rightarrow> pipeline \<times> heap" where
  "Pipeline_UnwindWithOptions path preserveNullAndEmpty includeArrayIndex p h =
     (let unwindSpec = [(''path'', VStr path)];
          unwindSpec = (if preserveNullAndEmpty
                        then AList.update ''preserveNullAndEmptyArrays'' (VBool True) unwindSpec
                        else unwindSpec);
          unwindSpec = (if includeArrayIndex \<noteq> []
                        then AList.update ''includeArrayIndex'' (VStr includeArrayIndex) unwindSpec
                        else unwindSpec);
          (a, h1) = alloc unwindSpec h
      in add_stage [(''$unwind'', VMap (MapAt a))] p h1)"

definition Pipeline_Lookup ::
  "string \<Rightarrow> string \<Rightarrow> string \<Rightarrow> string \<Rightarrow> pipeline \<Rightarrow> heap \<Rightarrow> pipeline \<times> heap" where
  "Pipeline_Lookup from localField foreignField as p h =
     (let (a, h1) = alloc [(''from'', VStr from), (''localField'', VStr localField),
                           (''foreignField'', VStr foreignField), (''as'', VStr as)] h
      in add_stage [(''$lookup'', VMap (MapAt a))] p h1)"

definition Pipeline_LookupWithPipeline ::
  "string \<Rightarrow> mapref \<Rightarrow> mapref list \<Rightarrow> string \<Rightarrow> pipeline \<Rightarrow> heap \<Rightarrow> pipeline \<times> heap" where
  "Pipeline_LookupWithPipeline from let_vars sub as p h =
     (let lookupSpec = [(''from'', VStr from), (''pipeline'', VArr (map VMap sub)),
                        (''as'', VStr as)];
          lookupSpec = (if let_vars \<noteq> NilMap
                        then AList.update ''let'' (VMap let_vars) lookupSpec
                        else lookupSpec);
          (a, h1) = alloc lookupSpec h
      in add_stage [(''$lookup'', VMap (MapAt a))] p h1)"

definition Pipeline_AddFields :: "mapref \<Rightarrow> pipeline \<Rightarrow> heap \<Rightarrow> pipeline \<times> heap" where
  "Pipeline_AddFields flds p h = add_stage [(''$addFields'', VMap flds)] p h"

definition Pipeline_Set :: "mapref \<Rightarrow> pipeline \<Rightarrow> heap \<Rightarrow> pipeline \<times> heap" where
  "Pipeline_Set flds p h = add_stage [(''$set'', VMap flds)] p h"

text \<open>\<open>Unset\<close> is variadic: \<open>flds\<close> (\<open>fields\<close> in the source) is the slice of
  its arguments.\<close>

definition Pipeline_Unset :: "string list \<Rightarrow> pipeline \<Rightarrow> heap \<Rightarrow> pipeline \<times> heap" where
  "Pipeline_Unset flds p h =
     (if length flds = 1 then add_stage [(''$unset'', VStr (hd flds))] p h
      else add_stage [(''$unset'', VArr (map VStr flds))] p h)"

definition Pipeline_ReplaceRoot :: "val \<Rightarrow> pipeline \<Rightarrow> heap \<Rightarrow> pipeline \<times> heap" where
  "Pipeline_ReplaceRoot newRoot p h =
     (let (a, h1) = alloc [(''newRoot'', newRoot)] h
      in add_stage [(''$replaceRoot'', VMap (MapAt a))] p h1)"

definition Pipeline_Count :: "string \<Rightarrow> pipeline \<Rightarrow> heap \<Rightarrow> pipeline \<times> heap" where
  "Pipeline_Count field p h = add_stage [(''$count'', VStr field)] p h"

definition Pipeline_Facet :: "mapref \<Rightarrow> pipeline \<Rightarrow> heap \<Rightarrow> pipeline \<times> heap" where
  "Pipeline_Facet facets p h = add_stage [(''$facet'', VMap facets)] p h"

definition Pipeline_Bucket ::
  "val \<Rightarrow> val list \<Rightarrow> val \<Rightarrow> mapref \<Rightarrow> pipeline \<Rightarrow> heap \<Rightarrow> pipeline \<times> heap" where
  "Pipeline_Bucket groupBy boundaries defaultBucket output p h =
     (let bucketSpec = [(''groupBy'', groupBy), (''boundaries'', VArr boundaries)];
          bucketSpec = (if defaultBucket \<noteq> VNil
                        then AList.update ''default'' defaultBucket bucketSpec
                        else bucketSpec);
          bucketSpec = (if output \<noteq> NilMap
                        then AList.update ''output'' (VMap output) bucketSpec
                        else bucketSpec);
          (a, h1) = alloc bucketSpec h
      in add_stage [(''$bucket'', VMap (MapAt a))] p h1)"

definition Pipeline_Sample :: "int \<Rightarrow> pipeline \<Rightarrow> heap \<Rightarrow> pipeline \<times> heap" where
  "Pipeline_Sample n p h =
     (let (a, h1) = alloc [(''size'', VInt n)] h
      in add_stage [(''$sample'', VMap (MapAt a))] p h1)"

definition Pipeline_Out :: "string \<Rightarrow> pipeline \<Rightarrow> heap \<Rightarrow> pipeline \<times> heap" where
  "Pipeline_Out collection p h = add_stage [(''$out'', VStr collection)] p h"

definition Pipeline_Merge ::
  "string \<Rightarrow> string list \<Rightarrow> string \<Rightarrow> string \<Rightarrow> pipeline \<Rightarrow> heap \<Rightarrow> pipeline \<times> heap" where
  "Pipeline_Merge into on whenMatched whenNotMatched p h =
     (let mergeSpec = [(''into'', VStr into)];
          mergeSpec = (if length on > 0
                       then AList.update ''on'' (VArr (map VStr on)) mergeSpec
                       else mergeSpec);
          mergeSpec = (if whenMatched \<noteq> []
                       then AList.update ''whenMatched'' (VStr whenMatched) mergeSpec
                       else mergeSpec);
          mergeSpec = (if whenNotMatched \<noteq> []
                       then AList.update ''whenNotMatched'' (VStr whenNotMatched) mergeSpec
                       else mergeSpec);
          (a, h1) = alloc mergeSpec h
      in add_stage [(''$merge'', VMap (MapAt a))] p h1)"

text \<open>\<open>Raw\<close> appends the caller's map itself, which may be nil.\<close>

definition Pipeline_Raw :: "mapref \<Rightarrow> pipeline \<Rightarrow> heap \<Rightarrow> pipeline \<times> heap" where
  "Pipeline_Raw stage p h = (p\<lparr>stages := stages p @ [stage]\<rparr>, h)"

section \<open>Auxiliary notions for the proofs\<close>

text \<open>What the normal form asks of a child of an \<open>andFilter\<close>, of an \<open>orFilter\<close>.\<close>

definition and_child :: "filter option \<Rightarrow> bool" where
  "and_child x = (case x of None \<Rightarrow> False | Some g \<Rightarrow> \<not> is_and g \<and> normalized g)"

definition or_child :: "filter option \<Rightarrow> bool" where
  "or_child x = (case x of None \<Rightarrow> False | Some g \<Rightarrow> \<not> is_or g \<and> normalized g)"

text \<open>
  \<open>grows h h'\<close>: the store \<open>h'\<close> holds every map of \<open>h\<close> with the contents it
  had in \<open>h\<close>, and possibly maps allocated since.
\<close>

definition grows :: "heap \<Rightarrow> heap \<Rightarrow> bool" where
  "grows h h' = (length h \<le> length h' \<and> take (length h) h' = h)"

text \<open>A \<open>bson.M\<close> value of the program is nil or a map of the store.\<close>

fun allocated :: "heap \<Rightarrow> mapref \<Rightarrow> bool" where
  "allocated h NilMap = True"
| "allocated h (MapAt a) = (a < length h)"

text \<open>The type assertion \<open>v.(bson.M)\<close> succeeds exactly on the values \<open>VMap m\<close>.\<close>

fun is_bsonM :: "val \<Rightarrow> bool" where
  "is_bsonM (VMap m) = True"
| "is_bsonM v = False"

text \<open>The map that results from the writes \<open>m[k] = v\<close> for the entries of a list, in order.\<close>

fun write_all :: "bsonM \<Rightarrow> bsonM \<Rightarrow> bsonM" where
  "write_all [] m = m"
| "write_all ((k, v) # rest) m = write_all rest (AList.update k v m)"

text \<open>\<open>setFields_free u\<close>: no \<open>setFieldsUpdate\<close> occurs in the update \<open>u\<close>.\<close>

fun setFields_free :: "update \<Rightarrow> bool" where
  "setFields_free (setFieldsUpdate m) = False"
| "setFields_free (combinedUpdate us) =
     (\<forall>x \<in> set us. case x of None \<Rightarrow> True | Some c \<Rightarrow> setFields_free c)"
| "setFields_free u = True"

text \<open>
  \<open>above r v\<close>: the value \<open>v\<close> is an allocated \<open>bson.M\<close> whose address is
  above \<open>r\<close>; \<open>payloads_above r m\<close>: every value of the map contents \<open>m\<close> is.
\<close>

fun above :: "addr \<Rightarrow> val \<Rightarrow> bool" where
  "above r (VMap (MapAt e)) = (r < e)"
| "above r v = False"

definition payloads_above :: "addr \<Rightarrow> bsonM \<Rightarrow> bool" where
  "payloads_above r m = list_all (\<lambda>kv. above r (snd kv)) m"

section \<open>Documents\<close>

text \<open>
  The specification describes what a filter and an update compile to as a document: a
  mapping from keys to documents, lists and plain values. \<open>repr h v d\<close> reads the
  value \<open>v\<close> in the store \<open>h\<close> as the document \<open>d\<close>: a \<open>Doc\<close> is an allocated
  map with exactly these keys, an \<open>Arr\<close> a list, and a \<open>Leaf\<close> is the value itself
  (a value that a node holds is passed on as it is, a reference included).
\<close>

datatype doc = Leaf val | Arr "doc list" | Doc "(string \<times> doc) list"

fun repr :: "heap \<Rightarrow> val \<Rightarrow> doc \<Rightarrow> bool" where
  "repr h v (Leaf w) = (v = w)"
| "repr h v (Arr ds) = (case v of VArr vs \<Rightarrow> list_all2 (repr h) vs ds | _ \<Rightarrow> False)"
| "repr h v (Doc kds) =
     (case v of
        VMap (MapAt a) \<Rightarrow>
          a < length h \<and> map fst (cell h a) = map fst kds \<and>
          list_all2 (repr h) (map snd (cell h a)) (map snd kds)
      | _ \<Rightarrow> False)"

text \<open>
  The document of a filter, after section 4.1 of the specification: a leaf is
  \<open>{field: value}\<close> for equality and \<open>{field: {operator: value}}\<close> otherwise, a
  pattern leaf has a second key for its flags when there are any, an And/Or container
  is \<open>{"$and"|"$or": [children]}\<close> unless exactly one child compiles, a Not container is
  \<open>{"$nor": [inner]}\<close>. \<open>None\<close>: a Not container without inner filter has no document.
\<close>

fun filter_doc :: "filter \<Rightarrow> doc option"
  and filter_docs :: "filter option list \<Rightarrow> doc list option"
where
  "filter_doc (eqFilter field v) = Some (Doc [(field, Leaf v)])"
| "filter_doc (opFilter field op v) = Some (Doc [(field, Doc [(op, Leaf v)])])"
| "filter_doc (regexFilter field pattern opts) =
     (if opts = [] then Some (Doc [(field, Doc [(''$regex'', Leaf (VStr pattern))])])
      else Some (Doc [(field, Doc [(''$regex'', Leaf (VStr pattern)),
                                   (''$options'', Leaf (VStr opts))])]))"
| "filter_doc (elemMatchFilter field None) =
     Some (Doc [(field, Doc [(''$elemMatch'', Doc [])])])"
| "filter_doc (elemMatchFilter field (Some flt)) =
     (case filter_doc flt of
        None \<Rightarrow> None
      | Some d \<Rightarrow> Some (Doc [(field, Doc [(''$elemMatch'', d)])]))"
| "filter_doc (andFilter filters) =
     (case filter_docs filters of
        None \<Rightarrow> None
      | Some ds \<Rightarrow> Some (if length ds = 1 then hd ds else Doc [(''$and'', Arr ds)]))"
| "filter_doc (orFilter filters) =
     (case filter_docs filters of
        None \<Rightarrow> None
      | Some ds \<Rightarrow> Some (if length ds = 1 then hd ds else Doc [(''$or'', Arr ds)]))"
| "filter_doc (notFilter None) = None"
| "filter_doc (notFilter (Some flt)) =
     (case filter_doc flt of
        None \<Rightarrow> None
      | Some d \<Rightarrow> Some (Doc [(''$nor'', Arr [d])]))"
| "filter_docs [] = Some []"
| "filter_docs (None # rest) = filter_docs rest"
| "filter_docs (Some flt # rest) =
     (case filter_doc flt of
        None \<Rightarrow> None
      | Some d \<Rightarrow>
          (case filter_docs rest of
             None \<Rightarrow> None
           | Some ds \<Rightarrow> Some (d # ds)))"

text \<open>
  The document of an update, after section 4.2 of the specification, as the list of its
  operator keys, each with its fields: a leaf is \<open>{operatorKey: {field: value}}\<close>, and
  \<open>Combine\<close> folds its children from left to right into an accumulator; an operator
  key that the accumulator has gets the incoming fields written into its fields (the
  later value wins), a new one is added with the incoming fields. \<open>None\<close>: the fields
  of a \<open>setFieldsUpdate\<close> are those of the caller's map, which the node does not
  determine, and a nil child has no document.
\<close>

type_synonym udoc = "(string \<times> bsonM) list"

fun merge_pure :: "udoc \<Rightarrow> string \<times> bsonM \<Rightarrow> udoc" where
  "merge_pure acc (k, flds) =
     AList.update k
       (case map_of acc k of
          None \<Rightarrow> flds
        | Some existing \<Rightarrow> write_all (AList.clearjunk flds) existing)
       acc"

fun update_doc :: "update \<Rightarrow> udoc option"
  and update_docs :: "update option list \<Rightarrow> udoc \<Rightarrow> udoc option"
where
  "update_doc (setUpdate field v) = Some [(''$set'', [(field, v)])]"
| "update_doc (incUpdate field v) = Some [(''$inc'', [(field, v)])]"
| "update_doc (pushUpdate field v) = Some [(''$push'', [(field, v)])]"
| "update_doc (pullUpdate field v) = Some [(''$pull'', [(field, v)])]"
| "update_doc (unsetUpdate field) = Some [(''$unset'', [(field, VStr [])])]"
| "update_doc (setFieldsUpdate m) = None"
| "update_doc (combinedUpdate updates) = update_docs updates []"
| "update_doc (addToSetUpdate field v) = Some [(''$addToSet'', [(field, v)])]"
| "update_doc (popUpdate field position) = Some [(''$pop'', [(field, VInt position)])]"
| "update_doc (mulUpdate field v) = Some [(''$mul'', [(field, v)])]"
| "update_doc (minUpdate field v) = Some [(''$min'', [(field, v)])]"
| "update_doc (maxUpdate field v) = Some [(''$max'', [(field, v)])]"
| "update_doc (renameUpdate oldField newField) = Some [(''$rename'', [(oldField, VStr newField)])]"
| "update_docs [] acc = Some acc"
| "update_docs (None # rest) acc = None"
| "update_docs (Some u # rest) acc =
     (case update_doc u of
        None \<Rightarrow> None
      | Some d \<Rightarrow> update_docs rest (foldl merge_pure acc d))"

definition udoc_doc :: "udoc \<Rightarrow> doc" where
  "udoc_doc d = Doc (map (\<lambda>(k, flds). (k, Doc (map (\<lambda>(f, v). (f, Leaf v)) flds))) d)"

text \<open>
  \<open>merged r h acc\<close>, the invariant of the loops of \<open>combinedUpdate.ToBsonUpdate\<close>: the
  map \<open>result\<close> at \<open>r\<close> has the keys of \<open>acc\<close>; the value of each is a map allocated
  after \<open>r\<close> whose contents are the fields \<open>acc\<close> has for the key; no two keys share a
  map.
\<close>

definition merged :: "addr \<Rightarrow> heap \<Rightarrow> udoc \<Rightarrow> bool" where
  "merged r h acc =
     (r < length h \<and> map fst (cell h r) = map fst acc \<and> distinct (map fst acc) \<and>
      (\<forall>k m. map_of acc k = Some m \<longrightarrow>
         (\<exists>e. map_of (cell h r) k = Some (VMap (MapAt e)) \<and> r < e \<and> e < length h \<and>
              cell h e = m)) \<and>
      (\<forall>k k' x. map_of (cell h r) k = Some x \<longrightarrow> map_of (cell h r) k' = Some x \<longrightarrow> k = k'))"

text \<open>
  \<open>incoming r h es d\<close>: the entries \<open>es\<close> of a compiled child hold the keys of its
  document \<open>d\<close>, each with a map of its own, allocated after \<open>r\<close>, not a value of
  \<open>result\<close>, whose contents are the fields \<open>d\<close> has for the key.
\<close>

definition incoming :: "addr \<Rightarrow> heap \<Rightarrow> bsonM \<Rightarrow> udoc \<Rightarrow> bool" where
  "incoming r h es d =
     (distinct (map snd es) \<and>
      list_all2 (\<lambda>kv km. fst kv = fst km \<and>
         (\<exists>e. snd kv = VMap (MapAt e) \<and> r < e \<and> e < length h \<and> cell h e = snd km \<and>
              (\<forall>k. map_of (cell h r) k \<noteq> Some (VMap (MapAt e))))) es d)"

text \<open>
  \<open>compiled b h a d\<close>: the map at \<open>a\<close> holds the keys of \<open>d\<close>, distinct, each with a
  map of its own, allocated at \<open>b\<close> or later, whose contents are the fields \<open>d\<close> has
  for the key.
\<close>

definition compiled :: "nat \<Rightarrow> heap \<Rightarrow> addr \<Rightarrow> udoc \<Rightarrow> bool" where
  "compiled b h a d =
     (a < length h \<and> distinct (map fst d) \<and> distinct (map snd (cell h a)) \<and>
      list_all2 (\<lambda>kv km. fst kv = fst km \<and>
         (\<exists>e. snd kv = VMap (MapAt e) \<and> b \<le> e \<and> e \<noteq> a \<and> e < length h \<and>
              cell h e = snd km)) (cell h a) d)"

section \<open>The normal form is an invariant of the constructors\<close>

lemma And_flat_append: "And_flat (xs @ ys) = And_flat xs @ And_flat ys"
  by (induction xs rule: And_flat.induct) simp_all

lemma Or_flat_append: "Or_flat (xs @ ys) = Or_flat xs @ Or_flat ys"
  by (induction xs rule: Or_flat.induct) simp_all

lemma And_flat_children:
  "\<forall>x \<in> set xs. normal x \<Longrightarrow> \<forall>y \<in> set (And_flat xs). and_child y"
  by (induction xs rule: And_flat.induct) (auto simp: and_child_def)

lemma Or_flat_children:
  "\<forall>x \<in> set xs. normal x \<Longrightarrow> \<forall>y \<in> set (Or_flat xs). or_child y"
  by (induction xs rule: Or_flat.induct) (auto simp: or_child_def)

lemma and_child_normal: "and_child y \<Longrightarrow> normal y"
  by (cases y) (auto simp: and_child_def)

lemma or_child_normal: "or_child y \<Longrightarrow> normal y"
  by (cases y) (auto simp: or_child_def)

lemma list_three_cases:
  obtains "xs = []" | y where "xs = [y]" | "2 \<le> length xs"
  by (cases xs; cases "tl xs") auto

lemma And_normal:
  assumes "\<forall>x \<in> set xs. normal x"
  shows "normal (And xs)"
proof -
  let ?flat = "And_flat xs"
  have ch: "\<And>y. y \<in> set ?flat \<Longrightarrow> and_child y"
    using And_flat_children [OF assms] by blast
  show ?thesis
  proof (cases ?flat rule: list_three_cases)
    case 1
    then show ?thesis by (simp add: And_def)
  next
    case (2 y)
    then have "and_child y" using ch by simp
    with 2 show ?thesis by (simp add: And_def and_child_normal)
  next
    case 3
    then have "And xs = Some (andFilter ?flat)" by (auto simp: And_def Let_def)
    moreover have "normalized (andFilter ?flat)"
      using 3 ch by (auto simp: and_child_def)
    ultimately show ?thesis by simp
  qed
qed

lemma Or_normal:
  assumes "\<forall>x \<in> set xs. normal x"
  shows "normal (Or xs)"
proof -
  let ?flat = "Or_flat xs"
  have ch: "\<And>y. y \<in> set ?flat \<Longrightarrow> or_child y"
    using Or_flat_children [OF assms] by blast
  show ?thesis
  proof (cases ?flat rule: list_three_cases)
    case 1
    then show ?thesis by (simp add: Or_def)
  next
    case (2 y)
    then have "or_child y" using ch by simp
    with 2 show ?thesis by (simp add: Or_def or_child_normal)
  next
    case 3
    then have "Or xs = Some (orFilter ?flat)" by (auto simp: Or_def Let_def)
    moreover have "normalized (orFilter ?flat)"
      using 3 ch by (auto simp: or_child_def)
    ultimately show ?thesis by simp
  qed
qed

lemma Not_normal: "normal x \<Longrightarrow> normal (Not_filter x)"
  by (cases x) (simp_all add: Not_filter_def)

lemma ElemMatch_normal: "normal x \<Longrightarrow> normal (ElemMatch field x)"
  by (cases x) (simp_all add: ElemMatch_def)

lemma built_normal: "built x \<Longrightarrow> normal x"
proof (induction rule: built.induct)
  case (b_Between field lo hi)
  show ?case unfolding Between_def by (rule And_normal) (auto simp: Gte_def Lte_def)
next
  case (b_And filters)
  then show ?case by (intro And_normal) blast
next
  case (b_Or filters)
  then show ?case by (intro Or_normal) blast
qed (simp_all add: Eq_def Ne_def Gt_def Gte_def Lt_def Lte_def In_def NotIn_def Nin_def
       Exists_def Regex_def All_filter_def Size_def ElemMatch_normal Not_normal)

lemma built_And_list: "list_all built filters \<Longrightarrow> built (And filters)"
  by (rule b_And) (simp add: list_all_iff)

lemma built_Or_list: "list_all built filters \<Longrightarrow> built (Or filters)"
  by (rule b_Or) (simp add: list_all_iff)

lemmas built_simps = built_And_list built_Or_list b_nil b_Eq b_Ne b_Gt b_Gte b_Lt b_Lte b_In
  b_NotIn b_Exists b_Nin b_Regex b_All b_Size b_ElemMatch b_Between b_Not

text \<open>
  C6. Every filter that the exported functions can return is nil or a tree in which
  each \<open>andFilter\<close> and each \<open>orFilter\<close> has at least two children, no nil child
  and no child that is a container of its own kind; and each of the functions that take
  filters (\<open>And\<close>, \<open>Or\<close>, \<open>Not\<close>, \<open>ElemMatch\<close>) returns a filter in this
  normal form when its arguments are.
\<close>

theorem normalization_invariant:
  "(built x \<longrightarrow> normal x) \<and>
   ((\<forall>y \<in> set filters. normal y) \<longrightarrow> normal (And filters) \<and> normal (Or filters)) \<and>
   (normal y \<longrightarrow> normal (Not_filter y) \<and> normal (ElemMatch field y))"
  using built_normal And_normal Or_normal Not_normal ElemMatch_normal by blast

theorem normalization_invariant_witness:
  "built (And [Or [Eq ''a'' (VInt 1), None, Or [Eq ''b'' (VInt 2), Eq ''c'' (VInt 3)]],
               And [Eq ''d'' (VInt 4), Eq ''e'' (VInt 5)]]) \<and>
   And [Or [Eq ''a'' (VInt 1), None, Or [Eq ''b'' (VInt 2), Eq ''c'' (VInt 3)]],
        And [Eq ''d'' (VInt 4), Eq ''e'' (VInt 5)]]
     = Some (andFilter [Some (orFilter [Some (eqFilter ''a'' (VInt 1)),
                                        Some (eqFilter ''b'' (VInt 2)),
                                        Some (eqFilter ''c'' (VInt 3))]),
                        Some (eqFilter ''d'' (VInt 4)), Some (eqFilter ''e'' (VInt 5))]) \<and>
   normal (And [Or [Eq ''a'' (VInt 1), None, Or [Eq ''b'' (VInt 2), Eq ''c'' (VInt 3)]],
                And [Eq ''d'' (VInt 4), Eq ''e'' (VInt 5)]]) \<and>
   normal (Eq ''a'' (VInt 1)) \<and> normal (Eq ''b'' (VInt 2)) \<and>
   normal (And [Eq ''a'' (VInt 1), Eq ''b'' (VInt 2)]) \<and>
   normal (Or [Eq ''a'' (VInt 1), Eq ''b'' (VInt 2)]) \<and>
   normal (Eq ''a'' (VInt 1)) \<and>
   normal (Not_filter (Eq ''a'' (VInt 1))) \<and> normal (ElemMatch ''xs'' (Eq ''a'' (VInt 1)))"
proof -
  let ?x = "And [Or [Eq ''a'' (VInt 1), None, Or [Eq ''b'' (VInt 2), Eq ''c'' (VInt 3)]],
                 And [Eq ''d'' (VInt 4), Eq ''e'' (VInt 5)]]"
  have b: "built ?x"
    by (simp add: built_simps)
  have n: "\<forall>y \<in> set [Eq ''a'' (VInt 1), Eq ''b'' (VInt 2)]. normal y"
    by (simp add: Eq_def)
  have e: "normal (Eq ''a'' (VInt 1))" by (simp add: Eq_def)
  have v: "?x = Some (andFilter [Some (orFilter [Some (eqFilter ''a'' (VInt 1)),
                                        Some (eqFilter ''b'' (VInt 2)),
                                        Some (eqFilter ''c'' (VInt 3))]),
                        Some (eqFilter ''d'' (VInt 4)), Some (eqFilter ''e'' (VInt 5))])"
    by (simp add: And_def Or_def Eq_def)
  from normalization_invariant
         [of ?x "[Eq ''a'' (VInt 1), Eq ''b'' (VInt 2)]" "Eq ''a'' (VInt 1)" "''xs''"]
       b n e v
  show ?thesis by (simp add: Eq_def)
qed

section \<open>Compiling filters\<close>

lemma grows_iff: "grows h h' \<longleftrightarrow> (\<exists>new. h' = h @ new)"
proof
  assume "grows h h'"
  then have "h' = h @ drop (length h) h'"
    unfolding grows_def by (metis append_take_drop_id)
  then show "\<exists>new. h' = h @ new" ..
next
  assume "\<exists>new. h' = h @ new"
  then show "grows h h'" by (auto simp: grows_def)
qed

lemma grows_refl: "grows h h"
  by (simp add: grows_def)

lemma grows_append: "grows h (h @ new)"
  by (simp add: grows_def)

lemma grows_trans: "grows h1 h2 \<Longrightarrow> grows h2 h3 \<Longrightarrow> grows h1 h3"
  by (auto simp: grows_iff)

lemma grows_length: "grows h h' \<Longrightarrow> length h \<le> length h'"
  by (simp add: grows_def)

lemma grows_cell: "grows h h' \<Longrightarrow> a < length h \<Longrightarrow> cell h' a = cell h a"
  by (auto simp: grows_iff cell_def nth_append)

lemma grows_snoc: "grows h h1 \<Longrightarrow> grows h (h1 @ new)"
  by (auto simp: grows_iff)
lemma and_children_normal:
  "\<forall>x\<in>set fs. case x of None \<Rightarrow> False | Some g \<Rightarrow> \<not> is_and g \<and> normalized g
   \<Longrightarrow> \<forall>x \<in> set fs. normal x"
  by (auto split: option.splits)

lemma or_children_normal:
  "\<forall>x\<in>set fs. case x of None \<Rightarrow> False | Some g \<Rightarrow> \<not> is_or g \<and> normalized g
   \<Longrightarrow> \<forall>x \<in> set fs. normal x"
  by (auto split: option.splits)

text \<open>Compiling a filter in normal form does not panic.\<close>

lemma ToMongo_total:
  "normalized f \<Longrightarrow> ToMongo f h \<noteq> None"
  "\<forall>x \<in> set fs. normal x \<Longrightarrow> ToMongo_parts fs h \<noteq> None"
proof (induction f h and fs h rule: ToMongo_ToMongo_parts.induct)
  case (6 filters h)
  then show ?case using and_children_normal [of filters] by (auto simp: alloc_def)
next
  case (7 filters h)
  then show ?case using or_children_normal [of filters] by (auto simp: alloc_def)
next
  case (12 flt rest h)
  from "12.prems" have nf: "normalized flt" and nr: "\<forall>x \<in> set rest. normal x" by simp_all
  from "12.IH"(1) [OF nf] obtain a h1 where c: "ToMongo flt h = Some (a, h1)" by auto
  from "12.IH"(2) [OF c refl nr] obtain ps h2 where "ToMongo_parts rest h1 = Some (ps, h2)"
    by auto
  with c show ?case by simp
qed (auto simp: alloc_def split: option.splits prod.splits)

text \<open>
  Compiling a filter only allocates: the maps of the store it started from keep their
  contents, and the compiled map is a new one.
\<close>

lemma ToMongo_frame:
  "ToMongo f h = Some (a, h') \<Longrightarrow> grows h h' \<and> length h \<le> a \<and> a < length h'"
  "ToMongo_parts fs h = Some (ps, h') \<Longrightarrow>
     grows h h' \<and> (\<forall>a \<in> set ps. length h \<le> a \<and> a < length h')"
proof (induction f h and fs h arbitrary: a h' and ps h' rule: ToMongo_ToMongo_parts.induct)
  case (5 field flt h)
  from "5.prems" obtain e h1 where c: "ToMongo flt h = Some (e, h1)"
    and h': "h' = h1 @ [[(''$elemMatch'', VMap (MapAt e))], [(field, VMap (MapAt (length h1)))]]"
    and a: "a = Suc (length h1)"
    by (auto simp: alloc_def split: option.splits)
  from "5.IH" [OF c] have "grows h h1" by simp
  then show ?case using h' a grows_snoc [of h h1] grows_length [of h h1] by simp
next
  case (6 filters h)
  from "6.prems" obtain ps h1 where c: "ToMongo_parts filters h = Some (ps, h1)"
    by (auto split: option.splits)
  note ih = "6.IH" [OF c]
  show ?case
  proof (cases "length ps = 1")
    case True
    then have "hd ps \<in> set ps" by (cases ps) auto
    with True c "6.prems" ih show ?thesis by auto
  next
    case False
    with c "6.prems" have "h' = h1 @ [[(''$and'', VArr (map (\<lambda>a. VMap (MapAt a)) ps))]]"
      and "a = length h1" by (auto simp: alloc_def)
    then show ?thesis using ih grows_snoc [of h h1] grows_length [of h h1] by simp
  qed
next
  case (7 filters h)
  from "7.prems" obtain ps h1 where c: "ToMongo_parts filters h = Some (ps, h1)"
    by (auto split: option.splits)
  note ih = "7.IH" [OF c]
  show ?case
  proof (cases "length ps = 1")
    case True
    then have "hd ps \<in> set ps" by (cases ps) auto
    with True c "7.prems" ih show ?thesis by auto
  next
    case False
    with c "7.prems" have "h' = h1 @ [[(''$or'', VArr (map (\<lambda>a. VMap (MapAt a)) ps))]]"
      and "a = length h1" by (auto simp: alloc_def)
    then show ?thesis using ih grows_snoc [of h h1] grows_length [of h h1] by simp
  qed
next
  case (9 flt h)
  from "9.prems" obtain e h1 where c: "ToMongo flt h = Some (e, h1)"
    and h': "h' = h1 @ [[(''$nor'', VArr [VMap (MapAt e)])]]" and a: "a = length h1"
    by (auto simp: alloc_def split: option.splits)
  from "9.IH" [OF c] have "grows h h1" by simp
  then show ?case using h' a grows_snoc [of h h1] grows_length [of h h1] by simp
next
  case (12 flt rest h)
  from "12.prems" obtain e h1 qs where c: "ToMongo flt h = Some (e, h1)"
    and r: "ToMongo_parts rest h1 = Some (qs, h')" and ps: "ps = e # qs"
    by (auto split: option.splits)
  from "12.IH"(1) [OF c] have 1: "grows h h1" "length h \<le> e" "e < length h1" by simp_all
  from "12.IH"(2) [OF c refl r] have 2: "grows h1 h'"
    "\<forall>a \<in> set qs. length h1 \<le> a \<and> a < length h'" by simp_all
  from 1 2 have "grows h h'" by (blast intro: grows_trans)
  moreover have "\<forall>a \<in> set ps. length h \<le> a \<and> a < length h'"
    using 1 2 ps grows_length [OF 1(1)] grows_length [OF 2(1)] by auto
  ultimately show ?case by simp
next
  case (1 field v h)
  then show ?case by (auto simp: grows_append alloc_def)
next
  case (2 field op v h)
  then show ?case by (auto simp: grows_append alloc_def)
next
  case (3 field pattern opts h)
  then show ?case by (auto simp: grows_append alloc_def split: if_splits)
next
  case (4 field h)
  then show ?case by (auto simp: grows_append alloc_def)
next
  case (8 h)
  then show ?case by simp
next
  case (10 h)
  then show ?case by (simp add: grows_refl)
next
  case (11 rest h)
  then show ?case by simp
qed

section \<open>Negation, flattening and collapse\<close>

text \<open>
  C2. \<open>Not(nil)\<close> is nil. For every filter \<open>f\<close> that the exported functions can
  return, leaf or composite, compiling \<open>Not(f)\<close> compiles \<open>f\<close> and returns a new
  map with the single key \<open>$nor\<close>, whose value is the one-element list holding the
  compiled \<open>f\<close>.
\<close>

theorem universal_negation:
  "Not_filter None = None \<and>
   (built (Some f) \<longrightarrow>
      (\<exists>a h1. ToMongo f h = Some (a, h1) \<and> a < length h1 \<and>
         compile (Not_filter (Some f)) h =
           Some (length h1, h1 @ [[(''$nor'', VArr [VMap (MapAt a)])]])))"
proof (intro conjI impI)
  show "Not_filter None = None" by (simp add: Not_filter_def)
next
  assume "built (Some f)"
  then have "normalized f" using built_normal by fastforce
  then obtain a h1 where c: "ToMongo f h = Some (a, h1)"
    using ToMongo_total(1) [of f h] by auto
  then have "a < length h1" using ToMongo_frame(1) by blast
  with c show "\<exists>a h1. ToMongo f h = Some (a, h1) \<and> a < length h1 \<and>
         compile (Not_filter (Some f)) h =
           Some (length h1, h1 @ [[(''$nor'', VArr [VMap (MapAt a)])]])"
    by (simp add: Not_filter_def alloc_def)
qed

theorem universal_negation_witness:
  "built (And [Eq ''status'' (VStr ''pending''), Lt ''priority'' (VInt 3)]) \<and>
   compile (Not_filter (And [Eq ''status'' (VStr ''pending''), Lt ''priority'' (VInt 3)])) [] =
     Some (4, [[(''status'', VStr ''pending'')],
               [(''$lt'', VInt 3)],
               [(''priority'', VMap (MapAt 1))],
               [(''$and'', VArr [VMap (MapAt 0), VMap (MapAt 2)])],
               [(''$nor'', VArr [VMap (MapAt 3)])]])"
proof -
  let ?f = "andFilter [Some (eqFilter ''status'' (VStr ''pending'')),
                       Some (opFilter ''priority'' ''$lt'' (VInt 3))]"
  have e: "And [Eq ''status'' (VStr ''pending''), Lt ''priority'' (VInt 3)] = Some ?f"
    by (simp add: And_def Eq_def Lt_def)
  have b: "built (Some ?f)"
    unfolding e [symmetric] by (simp add: built_simps)
  from universal_negation [of ?f "[]"] b e show ?thesis
    by (simp add: alloc_def)
qed

lemma And_flat_And:
  assumes "\<forall>x \<in> set xs. normal x"
  shows "And_flat [And xs] = And_flat xs"
proof -
  let ?flat = "And_flat xs"
  have ch: "\<And>y. y \<in> set ?flat \<Longrightarrow> and_child y"
    using And_flat_children [OF assms] by blast
  show ?thesis
  proof (cases ?flat rule: list_three_cases)
    case 1
    then show ?thesis by (simp add: And_def)
  next
    case (2 y)
    then have "and_child y" using ch by simp
    then obtain g where "y = Some g" "\<not> is_and g"
      by (cases y) (auto simp: and_child_def)
    with 2 show ?thesis by (cases g) (simp_all add: And_def)
  next
    case 3
    then have "And xs = Some (andFilter ?flat)" by (auto simp: And_def Let_def)
    then show ?thesis by simp
  qed
qed

lemma Or_flat_Or:
  assumes "\<forall>x \<in> set xs. normal x"
  shows "Or_flat [Or xs] = Or_flat xs"
proof -
  let ?flat = "Or_flat xs"
  have ch: "\<And>y. y \<in> set ?flat \<Longrightarrow> or_child y"
    using Or_flat_children [OF assms] by blast
  show ?thesis
  proof (cases ?flat rule: list_three_cases)
    case 1
    then show ?thesis by (simp add: Or_def)
  next
    case (2 y)
    then have "or_child y" using ch by simp
    then obtain g where "y = Some g" "\<not> is_or g"
      by (cases y) (auto simp: or_child_def)
    with 2 show ?thesis by (cases g) (simp_all add: Or_def)
  next
    case 3
    then have "Or xs = Some (orFilter ?flat)" by (auto simp: Or_def Let_def)
    then show ?thesis by simp
  qed
qed

text \<open>A nested call of the same kind can be replaced by its arguments, in place.\<close>

lemma And_nested:
  assumes "\<forall>x \<in> set xs. normal x"
  shows "And (And xs # ys) = And (xs @ ys)"
proof -
  have "And_flat (And xs # ys) = And_flat [And xs] @ And_flat ys"
    using And_flat_append [of "[And xs]" ys] by simp
  then have "And_flat (And xs # ys) = And_flat (xs @ ys)"
    using And_flat_And [OF assms] by (simp add: And_flat_append)
  then show ?thesis by (simp add: And_def)
qed

lemma Or_nested:
  assumes "\<forall>x \<in> set xs. normal x"
  shows "Or (Or xs # ys) = Or (xs @ ys)"
proof -
  have "Or_flat (Or xs # ys) = Or_flat [Or xs] @ Or_flat ys"
    using Or_flat_append [of "[Or xs]" ys] by simp
  then have "Or_flat (Or xs # ys) = Or_flat (xs @ ys)"
    using Or_flat_Or [OF assms] by (simp add: Or_flat_append)
  then show ?thesis by (simp add: Or_def)
qed

text \<open>
  C4. For all filters \<open>a\<close>, \<open>b\<close>, \<open>c\<close> that the exported functions can return (nil
  included), \<open>And(And(a, b), c)\<close> is the very filter \<open>And(a, b, c)\<close>, so both compile
  alike; the same holds of \<open>Or\<close>. The children of a container argument of the same
  kind are appended in its place when the filter is built.
\<close>

theorem flattening:
  assumes "built a" and "built b" and "built c"
  shows "And [And [a, b], c] = And [a, b, c] \<and>
         Or [Or [a, b], c] = Or [a, b, c] \<and>
         compile (And [And [a, b], c]) h = compile (And [a, b, c]) h \<and>
         compile (Or [Or [a, b], c]) h = compile (Or [a, b, c]) h \<and>
         And_flat (Some (andFilter fs) # rest) = fs @ And_flat rest \<and>
         Or_flat (Some (orFilter fs) # rest) = fs @ Or_flat rest"
proof -
  have n: "\<forall>x \<in> set [a, b]. normal x"
    using assms built_normal by simp
  have 1: "And [And [a, b], c] = And [a, b, c]"
    using And_nested [OF n, of "[c]"] by simp
  have 2: "Or [Or [a, b], c] = Or [a, b, c]"
    using Or_nested [OF n, of "[c]"] by simp
  show ?thesis by (simp add: 1 2)
qed

theorem flattening_witness:
  "built (Eq ''a'' (VInt 1)) \<and> built (Eq ''b'' (VInt 2)) \<and> built (Eq ''c'' (VInt 3)) \<and>
   And [And [Eq ''a'' (VInt 1), Eq ''b'' (VInt 2)], Eq ''c'' (VInt 3)] =
     And [Eq ''a'' (VInt 1), Eq ''b'' (VInt 2), Eq ''c'' (VInt 3)] \<and>
   compile (And [And [Eq ''a'' (VInt 1), Eq ''b'' (VInt 2)], Eq ''c'' (VInt 3)]) [] =
     Some (3, [[(''a'', VInt 1)], [(''b'', VInt 2)], [(''c'', VInt 3)],
               [(''$and'', VArr [VMap (MapAt 0), VMap (MapAt 1), VMap (MapAt 2)])]])"
proof -
  have e: "compile (And [Eq ''a'' (VInt 1), Eq ''b'' (VInt 2), Eq ''c'' (VInt 3)]) [] =
     Some (3, [[(''a'', VInt 1)], [(''b'', VInt 2)], [(''c'', VInt 3)],
               [(''$and'', VArr [VMap (MapAt 0), VMap (MapAt 1), VMap (MapAt 2)])]])"
    by (simp add: And_def Eq_def alloc_def)
  from flattening [OF b_Eq b_Eq b_Eq, of "''a''" "VInt 1" "''b''" "VInt 2" "''c''" "VInt 3" "[]"]
       e b_Eq
  show ?thesis by simp
qed

text \<open>
  C5. For every non-nil filter \<open>n\<close> that the exported functions can return, \<open>And(n)\<close>
  and \<open>Or(n)\<close> are \<open>n\<close> itself, so they compile as \<open>n\<close> does.
\<close>

theorem singleton_collapse:
  assumes "built (Some n)"
  shows "And [Some n] = Some n \<and> Or [Some n] = Some n \<and>
         compile (And [Some n]) h = ToMongo n h \<and> compile (Or [Some n]) h = ToMongo n h"
proof -
  have n: "normalized n" using built_normal [OF assms] by simp
  have 1: "And [Some n] = Some n"
    using n by (cases n) (auto simp: And_def Let_def)
  have 2: "Or [Some n] = Some n"
    using n by (cases n) (auto simp: Or_def Let_def)
  show ?thesis by (simp add: 1 2)
qed

theorem singleton_collapse_witness:
  "built (Some (andFilter [Some (eqFilter ''a'' (VInt 1)), Some (eqFilter ''b'' (VInt 2))])) \<and>
   And [Some (andFilter [Some (eqFilter ''a'' (VInt 1)), Some (eqFilter ''b'' (VInt 2))])] =
     Some (andFilter [Some (eqFilter ''a'' (VInt 1)), Some (eqFilter ''b'' (VInt 2))]) \<and>
   Or [Some (andFilter [Some (eqFilter ''a'' (VInt 1)), Some (eqFilter ''b'' (VInt 2))])] =
     Some (andFilter [Some (eqFilter ''a'' (VInt 1)), Some (eqFilter ''b'' (VInt 2))]) \<and>
   compile (Or [Some (andFilter [Some (eqFilter ''a'' (VInt 1)), Some (eqFilter ''b'' (VInt 2))])]) [] =
     Some (2, [[(''a'', VInt 1)], [(''b'', VInt 2)],
               [(''$and'', VArr [VMap (MapAt 0), VMap (MapAt 1)])]])"
proof -
  let ?n = "andFilter [Some (eqFilter ''a'' (VInt 1)), Some (eqFilter ''b'' (VInt 2))]"
  have e: "And [Eq ''a'' (VInt 1), Eq ''b'' (VInt 2)] = Some ?n"
    by (simp add: And_def Eq_def)
  have b: "built (Some ?n)"
    unfolding e [symmetric] by (simp add: built_simps)
  from singleton_collapse [OF b, of "[]"] b show ?thesis
    by (simp add: alloc_def)
qed

section \<open>Nil arguments\<close>

lemma And_flat_removeAll: "And_flat (removeAll None xs) = And_flat xs"
  by (induction xs rule: And_flat.induct) simp_all

lemma Or_flat_removeAll: "Or_flat (removeAll None xs) = Or_flat xs"
  by (induction xs rule: Or_flat.induct) simp_all

lemma Combine_nonNil_removeAll: "Combine_nonNil xs = removeAll None xs"
  by (induction xs rule: Combine_nonNil.induct) simp_all

text \<open>
  C7. \<open>And\<close> and \<open>Or\<close> give the same filter with and without their nil arguments:
  \<open>And(nil, a, nil)\<close> is \<open>And(a)\<close> and compiles alike, and \<open>And(nil, nil)\<close> is nil;
  the same holds of \<open>Or\<close>. \<open>Combine\<close> drops its nil arguments; it returns nil when
  none is left, the one that is left when there is exactly one, and a
  \<open>combinedUpdate\<close> of those left otherwise.
\<close>

theorem nil_absorption:
  "And filters = And (removeAll None filters) \<and>
   Or filters = Or (removeAll None filters) \<and>
   And [None, Some a, None] = And [Some a] \<and>
   compile (And [None, Some a, None]) h = compile (And [Some a]) h \<and>
   And [None, None] = None \<and>
   Or [None, Some a, None] = Or [Some a] \<and>
   compile (Or [None, Some a, None]) h = compile (Or [Some a]) h \<and>
   Or [None, None] = None \<and>
   Combine updates =
     (case removeAll None updates of
        [] \<Rightarrow> None
      | [u] \<Rightarrow> u
      | u # v # rest \<Rightarrow> Some (combinedUpdate (u # v # rest)))"
proof -
  have 1: "And filters = And (removeAll None filters)"
    by (simp add: And_def And_flat_removeAll)
  have 2: "Or filters = Or (removeAll None filters)"
    by (simp add: Or_def Or_flat_removeAll)
  have 3: "And [None, Some a, None] = And [Some a]"
    using And_flat_removeAll [of "[None, Some a, None]"] by (simp add: And_def)
  have 4: "Or [None, Some a, None] = Or [Some a]"
    using Or_flat_removeAll [of "[None, Some a, None]"] by (simp add: Or_def)
  have 5: "And [None, None] = None" "Or [None, None] = None"
    by (simp_all add: And_def Or_def)
  have 6: "Combine updates =
     (case removeAll None updates of
        [] \<Rightarrow> None
      | [u] \<Rightarrow> u
      | u # v # rest \<Rightarrow> Some (combinedUpdate (u # v # rest)))"
    by (simp add: Combine_def Combine_nonNil_removeAll Let_def split: list.splits)
  show ?thesis
    using 1 2 3 4 5 6 by simp
qed

section \<open>Pipeline stages\<close>

text \<open>
  C9. \<open>Unset\<close> with exactly one field appends one stage, a new map whose key
  \<open>$unset\<close> holds that field as a string; with two or more fields it appends one stage
  whose key \<open>$unset\<close> holds the list of the fields, in the order of the arguments.
\<close>

theorem unset_stage_shape:
  "Pipeline_Unset [f] p h =
     (p\<lparr>stages := stages p @ [MapAt (length h)]\<rparr>, h @ [[(''$unset'', VStr f)]]) \<and>
   Pipeline_Unset (f1 # f2 # rest) p h =
     (p\<lparr>stages := stages p @ [MapAt (length h)]\<rparr>,
      h @ [[(''$unset'', VArr (VStr f1 # VStr f2 # map VStr rest))]])"
  by (simp add: Pipeline_Unset_def add_stage_def alloc_def)

lemma copy_fields_length: "length (copy_fields g es h) = length h"
  by (induction g es h rule: copy_fields.induct) simp_all

lemma copy_fields_other: "a \<noteq> g \<Longrightarrow> cell (copy_fields g es h) a = cell h a"
  by (induction g es h rule: copy_fields.induct) (simp_all add: cell_def)

lemma copy_fields_map:
  "g < length h \<Longrightarrow> distinct (map fst es) \<Longrightarrow>
   map_of (cell (copy_fields g es h) g) = map_of (cell h g) ++ map_of es"
proof (induction g es h rule: copy_fields.induct)
  case (1 groupSpec h)
  then show ?case by simp
next
  case (2 groupSpec k v rest h)
  let ?h1 = "h[groupSpec := AList.update k v (cell h groupSpec)]"
  have c: "cell ?h1 groupSpec = AList.update k v (cell h groupSpec)"
    using "2.prems" by (simp add: cell_def)
  have k: "k \<notin> dom (map_of rest)"
    using "2.prems" by (simp add: dom_map_of_conv_image_fst)
  have st: "copy_fields groupSpec ((k, v) # rest) h = copy_fields groupSpec rest ?h1"
    by simp
  have "map_of (cell (copy_fields groupSpec rest ?h1) groupSpec) =
        map_of (cell ?h1 groupSpec) ++ map_of rest"
    using "2.IH" "2.prems" by simp
  also have "\<dots> = (map_of (cell h groupSpec))(k \<mapsto> v) ++ map_of rest"
    by (simp add: c update_conv')
  also have "\<dots> = (map_of (cell h groupSpec) ++ map_of rest)(k \<mapsto> v)"
    using k by (rule map_add_upd_left)
  also have "\<dots> = map_of (cell h groupSpec) ++ map_of ((k, v) # rest)"
    by simp
  finally show ?case unfolding st .
qed

lemma map_of_entries:
  "map_of (entries h r) = (case r of NilMap \<Rightarrow> Map.empty | MapAt a \<Rightarrow> map_of (cell h a))"
  by (cases r) (simp_all add: map_of_clearjunk)

lemma distinct_entries: "distinct (map fst (entries h r))"
  by (cases r) simp_all

text \<open>
  C10. \<open>GroupBy(idExpr, accumulators)\<close> appends one stage, a new map whose key
  \<open>$group\<close> holds a new map \<open>groupSpec\<close>; that map is \<open>{"_id": idExpr}\<close>
  overwritten by every entry of \<open>accumulators\<close> (nil, or a map of the store). So an entry \<open>_id\<close> of
  \<open>accumulators\<close> replaces \<open>idExpr\<close>, and every other entry of \<open>accumulators\<close>
  appears unchanged.
\<close>

theorem groupby_id_overwritten:
  assumes "allocated h accumulators"
  shows "(let (p', h') = Pipeline_GroupBy idExpr accumulators p h;
        groupSpec = length h
    in stages p' = stages p @ [MapAt (Suc groupSpec)] \<and>
       length h' = length h + 2 \<and>
       grows h h' \<and>
       cell h' (Suc groupSpec) = [(''$group'', VMap (MapAt groupSpec))] \<and>
       map_of (cell h' groupSpec) = [''_id'' \<mapsto> idExpr] ++ map_of (entries h accumulators) \<and>
       map_of (cell h' groupSpec) ''_id'' =
         (case map_of (entries h accumulators) ''_id'' of
            None \<Rightarrow> Some idExpr
          | Some v \<Rightarrow> Some v))"
proof -
  let ?h1 = "h @ [[(''_id'', idExpr)]]"
  let ?es = "entries ?h1 accumulators"
  let ?h2 = "copy_fields (length h) ?es ?h1"
  have es: "map_of ?es = map_of (entries h accumulators)"
    using assms by (cases accumulators) (auto simp: map_of_clearjunk cell_def nth_append)
  have len: "length ?h2 = Suc (length h)" by (simp add: copy_fields_length)
  have m: "map_of (cell ?h2 (length h)) = [''_id'' \<mapsto> idExpr] ++ map_of (entries h accumulators)"
    using copy_fields_map [of "length h" ?h1 ?es] distinct_entries [of ?h1 accumulators]
    by (simp add: es cell_def)
  have old: "\<And>a. a < length h \<Longrightarrow> ?h2 ! a = h ! a"
  proof -
    fix a assume a: "a < length h"
    then have "cell ?h2 a = cell ?h1 a" by (intro copy_fields_other) simp
    with a len show "?h2 ! a = h ! a" by (simp add: cell_def nth_append)
  qed
  have g: "grows h (?h2 @ [[(''$group'', VMap (MapAt (length h)))]])"
    unfolding grows_def using len old by (auto simp: list_eq_iff_nth_eq nth_append)
  have r: "Pipeline_GroupBy idExpr accumulators p h =
        (p\<lparr>stages := stages p @ [MapAt (Suc (length h))]\<rparr>,
         ?h2 @ [[(''$group'', VMap (MapAt (length h)))]])"
    by (simp add: Pipeline_GroupBy_def add_stage_def alloc_def Let_def len)
  have c1: "cell (?h2 @ [[(''$group'', VMap (MapAt (length h)))]]) (Suc (length h)) =
        [(''$group'', VMap (MapAt (length h)))]"
    using len by (simp add: cell_def nth_append)
  have c0: "cell (?h2 @ [[(''$group'', VMap (MapAt (length h)))]]) (length h) =
        cell ?h2 (length h)"
    using len by (simp add: cell_def nth_append)
  have id: "([''_id'' \<mapsto> idExpr] ++ map_of (entries h accumulators)) ''_id'' =
         (case map_of (entries h accumulators) ''_id'' of
            None \<Rightarrow> Some idExpr
          | Some v \<Rightarrow> Some v)"
    by (simp add: map_add_def split: option.splits)
  show ?thesis
    unfolding r Let_def prod.case
    using len g c1 c0 m id by simp
qed

theorem groupby_id_overwritten_witness:
  "allocated [[(''_id'', VStr ''$region''), (''total'', VInt 1)]] (MapAt 0) \<and>
   Pipeline_GroupBy (VStr ''$category'') (MapAt 0) NewPipeline
       [[(''_id'', VStr ''$region''), (''total'', VInt 1)]] =
     (\<lparr>stages = [MapAt 2]\<rparr>,
      [[(''_id'', VStr ''$region''), (''total'', VInt 1)],
       [(''_id'', VStr ''$region''), (''total'', VInt 1)],
       [(''$group'', VMap (MapAt 1))]]) \<and>
   map_of (cell (snd (Pipeline_GroupBy (VStr ''$category'') (MapAt 0) NewPipeline
       [[(''_id'', VStr ''$region''), (''total'', VInt 1)]])) 1) ''_id'' = Some (VStr ''$region'')"
proof -
  have a: "allocated [[(''_id'', VStr ''$region''), (''total'', VInt 1)]] (MapAt 0)" by simp
  have e: "Pipeline_GroupBy (VStr ''$category'') (MapAt 0) NewPipeline
       [[(''_id'', VStr ''$region''), (''total'', VInt 1)]] =
     (\<lparr>stages = [MapAt 2]\<rparr>,
      [[(''_id'', VStr ''$region''), (''total'', VInt 1)],
       [(''_id'', VStr ''$region''), (''total'', VInt 1)],
       [(''$group'', VMap (MapAt 1))]])"
    by (simp add: Pipeline_GroupBy_def NewPipeline_def add_stage_def alloc_def cell_def)
  from groupby_id_overwritten [OF a, of "VStr ''$category''" NewPipeline] e a
  show ?thesis by (simp add: cell_def)
qed

section \<open>Combining updates\<close>

lemma cell_update_same: "a < length h \<Longrightarrow> cell (h[a := m]) a = m"
  by (simp add: cell_def)

lemma cell_update_other: "a \<noteq> b \<Longrightarrow> cell (h[b := m]) a = cell h a"
  by (simp add: cell_def)

lemma write_all_map:
  "distinct (map fst es) \<Longrightarrow> map_of (write_all es m) = map_of m ++ map_of es"
proof (induction es m rule: write_all.induct)
  case (1 m)
  then show ?case by simp
next
  case (2 k v rest m)
  then have k: "k \<notin> dom (map_of rest)"
    by (simp add: dom_map_of_conv_image_fst)
  have "map_of (write_all rest (AList.update k v m)) =
        map_of (AList.update k v m) ++ map_of rest"
    using 2 by simp
  also have "\<dots> = (map_of m)(k \<mapsto> v) ++ map_of rest"
    by (simp only: update_conv')
  also have "\<dots> = (map_of m ++ map_of rest)(k \<mapsto> v)"
    using k by (rule map_add_upd_left)
  also have "\<dots> = map_of m ++ map_of ((k, v) # rest)"
    by simp
  finally show ?case by (simp only: write_all.simps)
qed

lemma merge_fields_MapAt:
  "merge_fields (MapAt e) es h = Some (h[e := write_all es (cell h e)])"
proof (induction es arbitrary: h)
  case Nil
  show ?case by (simp add: cell_def list_update_beyond)
next
  case (Cons kv es)
  obtain k v where kv: "kv = (k, v)" by (cases kv)
  show ?case
    unfolding kv by (simp add: Cons.IH) (simp add: cell_def list_update_beyond)
qed

lemma merge_entry_merge:
  assumes "map_of (cell h r) k = Some (VMap (MapAt e))"
  shows "merge_entry r (k, VMap nm) h = Some (h[e := write_all (entries h nm) (cell h e)])"
  using assms by (simp add: merge_fields_MapAt)

lemma merge_entry_replace:
  assumes "(\<nexists>ex. map_of (cell h r) k = Some (VMap ex)) \<or> \<not> is_bsonM v"
  shows "merge_entry r (k, v) h = Some (h[r := AList.update k v (cell h r)])"
proof (cases "map_of (cell h r) k")
  case None
  then show ?thesis by simp
next
  case (Some x)
  show ?thesis
  proof (cases "is_bsonM x")
    case True
    then obtain ex where "x = VMap ex" by (cases x) auto
    with Some assms obtain "\<not> is_bsonM v" by auto
    then show ?thesis using Some \<open>x = VMap ex\<close> by (cases v) auto
  next
    case False
    then show ?thesis using Some by (cases x) auto
  qed
qed

lemma compile_Set_Set:
  "compile_update (Combine [Set f1 v1, Set f2 v2]) h =
     Some (length h,
           h @ [[(''$set'', VMap (MapAt (length h + 1)))],
                AList.update f2 v2 [(f1, v1)],
                [(''$set'', VMap (MapAt (length h + 1)))],
                [(f2, v2)],
                [(''$set'', VMap (MapAt (length h + 3)))]])"
  by (simp add: Combine_def Set_def op_doc_def alloc_def cell_def nth_append
        list_update_append)

lemma compile_Set_Inc:
  "compile_update (Combine [Set f1 v1, Inc f2 v2]) h =
     Some (length h,
           h @ [[(''$set'', VMap (MapAt (length h + 1))), (''$inc'', VMap (MapAt (length h + 3)))],
                [(f1, v1)],
                [(''$set'', VMap (MapAt (length h + 1)))],
                [(f2, v2)],
                [(''$inc'', VMap (MapAt (length h + 3)))]])"
  by (simp add: Combine_def Set_def Inc_def op_doc_def alloc_def cell_def nth_append
        list_update_append)

text \<open>
  C3. \<open>combinedUpdate.ToBsonUpdate\<close> goes through the children from left to right and
  through the entries \<open>(k, v)\<close> of each compiled child. When \<open>result[k]\<close> is an
  allocated \<open>bson.M\<close> and \<open>v\<close> is a \<open>bson.M\<close>, the entries of \<open>v\<close> are written
  into the existing map, field by field, so the later value wins on a field both have,
  and nothing else changes. When \<open>result\<close> has no key \<open>k\<close>, or one of the two values
  is not a \<open>bson.M\<close>, \<open>result[k]\<close> becomes \<open>v\<close> and the other keys of \<open>result\<close>
  stay. Hence \<open>Combine(Set(f1, v1), Set(f2, v2))\<close> compiles to \<open>{$set: m}\<close> where
  \<open>m\<close> is \<open>{f1: v1}\<close> overwritten with \<open>f2: v2\<close>, and
  \<open>Combine(Set(f1, v1), Inc(f2, v2))\<close> to \<open>{$set: {f1: v1}, $inc: {f2: v2}}\<close>.
\<close>

theorem combine_merge:
  "(map_of (cell h r) k = Some (VMap (MapAt e)) \<longrightarrow>
      merge_entry r (k, VMap nm) h = Some (h[e := write_all (entries h nm) (cell h e)]) \<and>
      map_of (write_all (entries h nm) (cell h e)) = map_of (cell h e) ++ map_of (entries h nm)) \<and>
   ((\<nexists>ex. map_of (cell h r) k = Some (VMap ex)) \<or> \<not> is_bsonM v \<longrightarrow>
      merge_entry r (k, v) h = Some (h[r := AList.update k v (cell h r)]) \<and>
      map_of (AList.update k v (cell h r)) = (map_of (cell h r))(k \<mapsto> v)) \<and>
   compile_update (Combine [Set f1 v1, Set f2 v2]) h0 =
     Some (length h0,
           h0 @ [[(''$set'', VMap (MapAt (length h0 + 1)))],
                 AList.update f2 v2 [(f1, v1)],
                 [(''$set'', VMap (MapAt (length h0 + 1)))],
                 [(f2, v2)],
                 [(''$set'', VMap (MapAt (length h0 + 3)))]]) \<and>
   compile_update (Combine [Set f1 v1, Inc f2 v2]) h0 =
     Some (length h0,
           h0 @ [[(''$set'', VMap (MapAt (length h0 + 1))),
                  (''$inc'', VMap (MapAt (length h0 + 3)))],
                 [(f1, v1)],
                 [(''$set'', VMap (MapAt (length h0 + 1)))],
                 [(f2, v2)],
                 [(''$inc'', VMap (MapAt (length h0 + 3)))]])"
proof (intro conjI impI)
  assume "map_of (cell h r) k = Some (VMap (MapAt e))"
  then show "merge_entry r (k, VMap nm) h = Some (h[e := write_all (entries h nm) (cell h e)])"
    by (rule merge_entry_merge)
next
  show "map_of (write_all (entries h nm) (cell h e)) = map_of (cell h e) ++ map_of (entries h nm)"
    by (rule write_all_map) (rule distinct_entries)
next
  assume "(\<nexists>ex. map_of (cell h r) k = Some (VMap ex)) \<or> \<not> is_bsonM v"
  then show "merge_entry r (k, v) h = Some (h[r := AList.update k v (cell h r)])"
    by (rule merge_entry_replace)
next
  show "map_of (AList.update k v (cell h r)) = (map_of (cell h r))(k \<mapsto> v)"
    by (rule update_conv')
qed (rule compile_Set_Set compile_Set_Inc)+

theorem combine_merge_witness:
  "map_of (cell [[(''$set'', VMap (MapAt 1))], [(''a'', VInt 1), (''c'', VInt 0)],
                 [(''a'', VInt 2), (''b'', VInt 3)]] 0) ''$set'' = Some (VMap (MapAt 1)) \<and>
   merge_entry 0 (''$set'', VMap (MapAt 2))
       [[(''$set'', VMap (MapAt 1))], [(''a'', VInt 1), (''c'', VInt 0)],
        [(''a'', VInt 2), (''b'', VInt 3)]] =
     Some [[(''$set'', VMap (MapAt 1))], [(''a'', VInt 2), (''c'', VInt 0), (''b'', VInt 3)],
           [(''a'', VInt 2), (''b'', VInt 3)]] \<and>
   \<not> is_bsonM (VArr [VStr ''x'']) \<and>
   merge_entry 0 (''$set'', VArr [VStr ''x''])
       [[(''$inc'', VMap (MapAt 2)), (''$set'', VMap (MapAt 1))], [(''a'', VInt 1)],
        [(''n'', VInt 1)]] =
     Some [[(''$inc'', VMap (MapAt 2)), (''$set'', VArr [VStr ''x''])], [(''a'', VInt 1)],
           [(''n'', VInt 1)]] \<and>
   compile_update (Combine [Set ''a'' (VInt 1), Set ''b'' (VInt 2)]) [] =
     Some (0, [[(''$set'', VMap (MapAt 1))], [(''a'', VInt 1), (''b'', VInt 2)],
               [(''$set'', VMap (MapAt 1))], [(''b'', VInt 2)], [(''$set'', VMap (MapAt 3))]]) \<and>
   compile_update (Combine [Set ''a'' (VInt 1), Set ''a'' (VInt 2)]) [] =
     Some (0, [[(''$set'', VMap (MapAt 1))], [(''a'', VInt 2)],
               [(''$set'', VMap (MapAt 1))], [(''a'', VInt 2)], [(''$set'', VMap (MapAt 3))]]) \<and>
   compile_update (Combine [Set ''a'' (VInt 1), Inc ''b'' (VInt 1)]) [] =
     Some (0, [[(''$set'', VMap (MapAt 1)), (''$inc'', VMap (MapAt 3))], [(''a'', VInt 1)],
               [(''$set'', VMap (MapAt 1))], [(''b'', VInt 1)], [(''$inc'', VMap (MapAt 3))]])"
proof -
  let ?h = "[[(''$set'', VMap (MapAt 1))], [(''a'', VInt 1), (''c'', VInt 0)],
             [(''a'', VInt 2), (''b'', VInt 3)]]"
  let ?g = "[[(''$inc'', VMap (MapAt 2)), (''$set'', VMap (MapAt 1))], [(''a'', VInt 1)],
             [(''n'', VInt 1)]]"
  have 1: "map_of (cell ?h 0) ''$set'' = Some (VMap (MapAt 1))"
    by (simp add: cell_def)
  have 2: "\<not> is_bsonM (VArr [VStr ''x''])" by simp
  have a: "merge_entry 0 (''$set'', VMap (MapAt 2)) ?h =
           Some (?h[1 := write_all (entries ?h (MapAt 2)) (cell ?h 1)])"
    using combine_merge [of ?h 0 "''$set''" 1 "MapAt 2", THEN conjunct1] 1 by blast
  have b: "merge_entry 0 (''$set'', VArr [VStr ''x'']) ?g =
           Some (?g[0 := AList.update ''$set'' (VArr [VStr ''x'']) (cell ?g 0)])"
    using combine_merge [of ?g 0 "''$set''" _ _ "VArr [VStr ''x'']", THEN conjunct2,
                         THEN conjunct1] 2 by blast
  have c1: "compile_update (Combine [Set ''a'' (VInt 1), Set ''b'' (VInt 2)]) [] =
     Some (0, [[(''$set'', VMap (MapAt 1))], [(''a'', VInt 1), (''b'', VInt 2)],
               [(''$set'', VMap (MapAt 1))], [(''b'', VInt 2)], [(''$set'', VMap (MapAt 3))]])"
    using combine_merge [of _ _ _ _ _ _ "''a''" "VInt 1" "''b''" "VInt 2" "[]",
                         THEN conjunct2, THEN conjunct2, THEN conjunct1] by simp
  have c2: "compile_update (Combine [Set ''a'' (VInt 1), Set ''a'' (VInt 2)]) [] =
     Some (0, [[(''$set'', VMap (MapAt 1))], [(''a'', VInt 2)],
               [(''$set'', VMap (MapAt 1))], [(''a'', VInt 2)], [(''$set'', VMap (MapAt 3))]])"
    using combine_merge [of _ _ _ _ _ _ "''a''" "VInt 1" "''a''" "VInt 2" "[]",
                         THEN conjunct2, THEN conjunct2, THEN conjunct1] by simp
  have c3: "compile_update (Combine [Set ''a'' (VInt 1), Inc ''b'' (VInt 1)]) [] =
     Some (0, [[(''$set'', VMap (MapAt 1)), (''$inc'', VMap (MapAt 3))], [(''a'', VInt 1)],
               [(''$set'', VMap (MapAt 1))], [(''b'', VInt 1)], [(''$inc'', VMap (MapAt 3))]])"
    using combine_merge [of _ _ _ _ _ _ "''a''" "VInt 1" "''b''" "VInt 1" "[]",
                         THEN conjunct2, THEN conjunct2, THEN conjunct2] by simp
  have a': "?h[1 := write_all (entries ?h (MapAt 2)) (cell ?h 1)] =
        [[(''$set'', VMap (MapAt 1))], [(''a'', VInt 2), (''c'', VInt 0), (''b'', VInt 3)],
           [(''a'', VInt 2), (''b'', VInt 3)]]"
    by (simp add: cell_def)
  have b': "?g[0 := AList.update ''$set'' (VArr [VStr ''x'']) (cell ?g 0)] =
        [[(''$inc'', VMap (MapAt 2)), (''$set'', VArr [VStr ''x''])], [(''a'', VInt 1)],
           [(''n'', VInt 1)]]"
    by (simp add: cell_def)
  show ?thesis
    using 1 2 a b c1 c2 c3 unfolding a' b' by (intro conjI)
qed

section \<open>Compiling updates: what is written\<close>

lemma above_iff: "above r x \<longleftrightarrow> (\<exists>e. x = VMap (MapAt e) \<and> r < e)"
  by (cases "(r, x)" rule: above.cases) auto

lemma payloads_above_Nil: "payloads_above r []"
  by (simp add: payloads_above_def)

lemma payloads_above_update:
  "payloads_above r m \<Longrightarrow> r < e \<Longrightarrow> payloads_above r (AList.update k (VMap (MapAt e)) m)"
  by (induction m) (auto simp: payloads_above_def)

lemma payloads_above_clearjunk: "payloads_above r m \<Longrightarrow> payloads_above r (AList.clearjunk m)"
proof -
  have "set (AList.clearjunk m) \<subseteq> set m"
    by (metis distinct_clearjunk map_of_clearjunk map_of_eq_Some_iff map_of_SomeD
          prod.collapse subsetI)
  then show "payloads_above r m \<Longrightarrow> payloads_above r (AList.clearjunk m)"
    unfolding payloads_above_def list_all_iff by blast
qed

lemma payloads_above_lookup:
  "payloads_above r m \<Longrightarrow> map_of m k = Some x \<Longrightarrow> \<exists>e. x = VMap (MapAt e) \<and> r < e"
  unfolding payloads_above_def list_all_iff
  by (fastforce dest!: map_of_SomeD simp: above_iff)

lemma payloads_above_mono: "payloads_above r m \<Longrightarrow> r' \<le> r \<Longrightarrow> payloads_above r' m"
  unfolding payloads_above_def list_all_iff
  by (fastforce simp: above_iff)

lemma op_doc_result:
  "op_doc op field v h =
     (Suc (length h), h @ [[(field, v)], [(op, VMap (MapAt (length h)))]])"
  by (simp add: op_doc_def alloc_def)

lemma take_grows: "grows h h' \<Longrightarrow> r \<le> length h \<Longrightarrow> take r h' = take r h"
  by (auto simp: grows_iff)

text \<open>
  One step of the merge, when every value of \<open>result\<close> is a map allocated after
  \<open>result\<close>, and so is the incoming value: only \<open>result\<close> and maps allocated after
  it are written.
\<close>

lemma merge_entry_above:
  assumes "r < length h" and "payloads_above r (cell h r)" and "above r v"
  shows "\<exists>h'. merge_entry r (k, v) h = Some h' \<and> length h' = length h \<and>
              take r h' = take r h \<and> payloads_above r (cell h' r)"
proof -
  from assms(3) obtain e' where v: "v = VMap (MapAt e')" and e': "r < e'"
    by (auto simp: above_iff)
  show ?thesis
  proof (cases "map_of (cell h r) k")
    case None
    then have "merge_entry r (k, v) h = Some (h[r := AList.update k v (cell h r)])"
      by simp
    moreover have "payloads_above r (cell (h[r := AList.update k v (cell h r)]) r)"
      using assms(1,2) e' by (simp add: cell_update_same v payloads_above_update)
    ultimately show ?thesis by simp
  next
    case (Some x)
    then obtain e where x: "x = VMap (MapAt e)" and e: "r < e"
      using payloads_above_lookup [OF assms(2)] by blast
    have "merge_entry r (k, v) h = Some (h[e := write_all (entries h (MapAt e')) (cell h e)])"
      using Some x v by (simp add: merge_fields_MapAt)
    moreover have "cell (h[e := write_all (entries h (MapAt e')) (cell h e)]) r = cell h r"
      using e by (simp add: cell_update_other)
    ultimately show ?thesis using assms(2) e by simp
  qed
qed

lemma merge_all_above:
  assumes "r < length h" and "payloads_above r (cell h r)" and "payloads_above r es"
  shows "\<exists>h'. merge_all r es h = Some h' \<and> length h' = length h \<and>
              take r h' = take r h \<and> payloads_above r (cell h' r)"
  using assms
proof (induction es arbitrary: h)
  case Nil
  then show ?case by simp
next
  case (Cons kv es)
  obtain k v where kv: "kv = (k, v)" by (cases kv)
  from Cons.prems(3) have v: "above r v" and es: "payloads_above r es"
    by (simp_all add: payloads_above_def kv)
  from merge_entry_above [OF Cons.prems(1,2) v, of k]
  obtain h1 where 1: "merge_entry r (k, v) h = Some h1" "length h1 = length h"
    "take r h1 = take r h" "payloads_above r (cell h1 r)" by blast
  from Cons.IH [of h1] 1 Cons.prems(1) es
  obtain h' where 2: "merge_all r es h1 = Some h'" "length h' = length h1"
    "take r h' = take r h1" "payloads_above r (cell h' r)" by auto
  show ?case using 1 2 by (simp add: kv)
qed

text \<open>
  Compiling an update without \<open>setFieldsUpdate\<close> only allocates, and every value of
  the compiled map is a map allocated by the call. The loop of a \<open>combinedUpdate\<close>
  writes only to \<open>result\<close> and to maps allocated after it.
\<close>

lemma ToBsonUpdate_frame:
  "setFields_free u \<longrightarrow>
     (\<forall>a h'. ToBsonUpdate u h = Some (a, h') \<longrightarrow>
        grows h h' \<and> length h \<le> a \<and> a < length h' \<and>
        (\<forall>r < length h. payloads_above r (cell h' a)))"
  "(\<forall>x \<in> set us. case x of None \<Rightarrow> True | Some c \<Rightarrow> setFields_free c) \<longrightarrow>
   r < length g \<longrightarrow> payloads_above r (cell g r) \<longrightarrow>
     (\<forall>g'. ToBsonUpdate_loop r us g = Some g' \<longrightarrow>
        length g \<le> length g' \<and> take r g' = take r g \<and> payloads_above r (cell g' r))"
proof (induction u h and r us g rule: ToBsonUpdate_ToBsonUpdate_loop.induct)
  case (7 updates h)
  show ?case
  proof (intro impI allI)
    fix a h'
    assume sf: "setFields_free (combinedUpdate updates)"
      and c: "ToBsonUpdate (combinedUpdate updates) h = Some (a, h')"
    from c have l: "ToBsonUpdate_loop (length h) updates (h @ [[]]) = Some h'"
      and a: "a = length h"
      by (auto split: option.splits)
    have "payloads_above (length h) (cell (h @ [[]]) (length h))"
      by (simp add: cell_def payloads_above_Nil)
    with 7 sf l have 1: "length (h @ [[]]) \<le> length h'"
      "take (length h) h' = take (length h) (h @ [[]])"
      "payloads_above (length h) (cell h' (length h))"
      by auto
    from 1(1,2) have "grows h h'" by (simp add: grows_def)
    moreover have "\<forall>r < length h. payloads_above r (cell h' a)"
      using 1(3) a payloads_above_mono by (metis less_imp_le_nat)
    ultimately show "grows h h' \<and> length h \<le> a \<and> a < length h' \<and>
        (\<forall>r < length h. payloads_above r (cell h' a))"
      using a 1(1) by simp
  qed
next
  case (16 result u rest h)
  show ?case
  proof (intro impI allI)
    fix g'
    assume sf: "\<forall>x \<in> set (Some u # rest). case x of None \<Rightarrow> True | Some c \<Rightarrow> setFields_free c"
      and r: "result < length h" and inv: "payloads_above result (cell h result)"
      and l: "ToBsonUpdate_loop result (Some u # rest) h = Some g'"
    from l obtain m h1 h2 where c: "ToBsonUpdate u h = Some (m, h1)"
      and ma: "merge_all result (entries h1 (MapAt m)) h1 = Some h2"
      and l2: "ToBsonUpdate_loop result rest h2 = Some g'"
      by (auto split: option.splits)
    from sf have sfu: "setFields_free u"
      and sfr: "\<forall>x \<in> set rest. case x of None \<Rightarrow> True | Some c \<Rightarrow> setFields_free c"
      by simp_all
    from "16.IH"(1) sfu c have 1: "grows h h1" "length h \<le> m" "m < length h1"
      "payloads_above result (cell h1 m)" using r by auto
    have r1: "result < length h1" using r grows_length [OF 1(1)] by simp
    have inv1: "payloads_above result (cell h1 result)"
      using inv grows_cell [OF 1(1) r] by simp
    have es: "payloads_above result (entries h1 (MapAt m))"
      using 1(4) by (simp add: payloads_above_clearjunk)
    from merge_all_above [OF r1 inv1 es] ma
    have 2: "length h2 = length h1" "take result h2 = take result h1"
      "payloads_above result (cell h2 result)" by auto
    from "16.IH"(2) [OF c refl ma] sfr r1 2 l2
    have 3: "length h2 \<le> length g'" "take result g' = take result h2"
      "payloads_above result (cell g' result)" by auto
    have "take result h1 = take result h"
      using take_grows [OF 1(1)] r by simp
    then show "length h \<le> length g' \<and> take result g' = take result h \<and>
        payloads_above result (cell g' result)"
      using 2 3 grows_length [OF 1(1)] by simp
  qed
qed (auto simp: op_doc_result grows_append cell_def nth_append payloads_above_def)

section \<open>The map of a SetFields node inside Combine\<close>

text \<open>
  C8. The claim is that no compilation of a tree built by the exported functions
  panics. \<open>SetFields\<close> accepts the nil map, and by itself it compiles; as the first
  \<open>$set\<close> child of \<open>Combine\<close>, followed by another \<open>$set\<close> child, the merge
  writes into that nil map, and the compilation panics.
\<close>

theorem combine_nil_fields_panics:
  "compile_update (SetFields NilMap) [] = Some (0, [[(''$set'', VMap NilMap)]]) \<and>
   Combine [SetFields NilMap, Set ''a'' (VInt 1)] =
     Some (combinedUpdate [Some (setFieldsUpdate NilMap), Some (setUpdate ''a'' (VInt 1))]) \<and>
   compile_update (Combine [SetFields NilMap, Set ''a'' (VInt 1)]) [] = None"
  by (simp add: Combine_def SetFields_def Set_def op_doc_def alloc_def cell_def)

text \<open>
  C1, as stated, fails twice. Compiling \<open>Combine(SetFields(m), Set("b", 2))\<close> writes
  \<open>b\<close> into the caller's map \<open>m\<close>, which the \<open>SetFields\<close> node holds: the node
  compiles to something else afterwards. And \<open>ToPipeline\<close> returns the stages the
  builder holds, not copies: a write through the result is a write to the builder's
  stage.
\<close>

theorem compile_no_side_effect_counterexample:
  "compile_update (SetFields (MapAt 0)) [[(''a'', VInt 1)]] =
     Some (1, [[(''a'', VInt 1)], [(''$set'', VMap (MapAt 0))]]) \<and>
   compile_update (Combine [SetFields (MapAt 0), Set ''b'' (VInt 2)]) [[(''a'', VInt 1)]] =
     Some (1, [[(''a'', VInt 1), (''b'', VInt 2)],
               [(''$set'', VMap (MapAt 0))], [(''$set'', VMap (MapAt 0))],
               [(''b'', VInt 2)], [(''$set'', VMap (MapAt 3))]]) \<and>
   cell [[(''a'', VInt 1), (''b'', VInt 2)],
         [(''$set'', VMap (MapAt 0))], [(''$set'', VMap (MapAt 0))],
         [(''b'', VInt 2)], [(''$set'', VMap (MapAt 3))]] 0 \<noteq> cell [[(''a'', VInt 1)]] 0 \<and>
   Pipeline_Limit 5 NewPipeline [] = (\<lparr>stages = [MapAt 0]\<rparr>, [[(''$limit'', VInt 5)]]) \<and>
   ToPipeline \<lparr>stages = [MapAt 0]\<rparr> = stages \<lparr>stages = [MapAt 0]\<rparr> \<and>
   put [[(''$limit'', VInt 5)]] (hd (ToPipeline \<lparr>stages = [MapAt 0]\<rparr>)) ''$limit'' (VInt 7) =
     Some [[(''$limit'', VInt 7)]] \<and>
   entries [[(''$limit'', VInt 7)]] (hd (stages \<lparr>stages = [MapAt 0]\<rparr>)) = [(''$limit'', VInt 7)]"
  by (simp add: Combine_def SetFields_def Set_def op_doc_def alloc_def cell_def
        Pipeline_Limit_def NewPipeline_def add_stage_def ToPipeline_def)

section \<open>The compiled map holds the document\<close>

lemma repr_grows: "repr h v d \<Longrightarrow> grows h h' \<Longrightarrow> repr h' v d"
proof (induction h v d rule: repr.induct)
  case (1 h v w)
  then show ?case by simp
next
  case (2 h v ds)
  from "2.prems" obtain vs where v: "v = VArr vs" and l: "list_all2 (repr h) vs ds"
    by (cases v) auto
  have "list_all2 (repr h') vs ds"
    using l "2.IH" [OF v] "2.prems"(2)
    by (auto simp: list_all2_conv_all_nth)
  then show ?case by (simp add: v)
next
  case (3 h v kds)
  from "3.prems" obtain a where v: "v = VMap (MapAt a)" and a: "a < length h"
    and k: "map fst (cell h a) = map fst kds"
    and l: "list_all2 (repr h) (map snd (cell h a)) (map snd kds)"
    by (cases v) (auto split: mapref.splits)
  have c: "cell h' a = cell h a" using grows_cell [OF "3.prems"(2) a] .
  have "list_all2 (repr h') (map snd (cell h a)) (map snd kds)"
    using l "3.IH" "3.prems"(2) v
    by (auto simp: list_all2_conv_all_nth)
  then show ?case
    using a k c grows_length [OF "3.prems"(2)] by (simp add: v)
qed

lemma list_all2_repr_grows:
  "list_all2 (repr h) vs ds \<Longrightarrow> grows h h' \<Longrightarrow> list_all2 (repr h') vs ds"
  by (auto simp: list_all2_conv_all_nth intro: repr_grows)

lemma repr_snoc_Doc:
  assumes "list_all2 (repr h) (map snd m) (map snd kds)" and "map fst m = map fst kds"
  shows "repr (h @ [m]) (VMap (MapAt (length h))) (Doc kds)"
  using assms list_all2_repr_grows [OF assms(1) grows_append [of h "[m]"]]
  by (simp add: cell_def)

lemma repr_snoc_single:
  assumes "repr h v d"
  shows "repr (h @ [[(k, v)]]) (VMap (MapAt (length h))) (Doc [(k, d)])"
  using repr_snoc_Doc [of h "[(k, v)]" "[(k, d)]"] assms by simp

text \<open>The map that \<open>ToMongo\<close> returns holds the document of the filter.\<close>

lemma ToMongo_repr:
  "ToMongo f h = Some (a, h') \<Longrightarrow>
     \<exists>d. filter_doc f = Some d \<and> repr h' (VMap (MapAt a)) d"
  "ToMongo_parts fs h = Some (ps, h') \<Longrightarrow>
     \<exists>ds. filter_docs fs = Some ds \<and>
          list_all2 (repr h') (map (\<lambda>a. VMap (MapAt a)) ps) ds"
proof (induction f h and fs h arbitrary: a h' and ps h' rule: ToMongo_ToMongo_parts.induct)
  case (1 field v h)
  then show ?case using repr_snoc_single [of h v "Leaf v" field] by (auto simp: alloc_def)
next
  case (2 field op v h)
  have "repr (h @ [[(op, v)]]) (VMap (MapAt (length h))) (Doc [(op, Leaf v)])"
    by (rule repr_snoc_single) simp
  from repr_snoc_single [OF this, of field] 2 show ?case by (auto simp: alloc_def)
next
  case (3 field pattern opts h)
  show ?case
  proof (cases "opts = []")
    case True
    have "repr (h @ [[(''$regex'', VStr pattern)]]) (VMap (MapAt (length h)))
            (Doc [(''$regex'', Leaf (VStr pattern))])"
      by (rule repr_snoc_single) simp
    from repr_snoc_single [OF this, of field] 3 True show ?thesis by (auto simp: alloc_def)
  next
    case False
    have "repr (h @ [[(''$regex'', VStr pattern), (''$options'', VStr opts)]])
            (VMap (MapAt (length h)))
            (Doc [(''$regex'', Leaf (VStr pattern)), (''$options'', Leaf (VStr opts))])"
      by (rule repr_snoc_Doc) simp_all
    from repr_snoc_single [OF this, of field] 3 False show ?thesis by (auto simp: alloc_def)
  qed
next
  case (4 field h)
  have "repr (h @ [[]]) (VMap (MapAt (length h))) (Doc [])"
    by (rule repr_snoc_Doc) simp_all
  from repr_snoc_single [OF this, of "''$elemMatch''"]
  have "repr (h @ [[], [(''$elemMatch'', VMap (MapAt (length h)))]])
          (VMap (MapAt (Suc (length h)))) (Doc [(''$elemMatch'', Doc [])])" by simp
  from repr_snoc_single [OF this, of field] 4 show ?case by (auto simp: alloc_def)
next
  case (5 field flt h)
  from "5.prems" obtain e h1 where c: "ToMongo flt h = Some (e, h1)"
    and h': "h' = h1 @ [[(''$elemMatch'', VMap (MapAt e))], [(field, VMap (MapAt (length h1)))]]"
    and a: "a = Suc (length h1)"
    by (auto simp: alloc_def split: option.splits)
  from "5.IH" [OF c] obtain d where d: "filter_doc flt = Some d" "repr h1 (VMap (MapAt e)) d"
    by blast
  from repr_snoc_single [OF d(2), of "''$elemMatch''"]
  have "repr (h1 @ [[(''$elemMatch'', VMap (MapAt e))]]) (VMap (MapAt (length h1)))
          (Doc [(''$elemMatch'', d)])" .
  from repr_snoc_single [OF this, of field] show ?case
    using d(1) h' a by simp
next
  case (6 filters h)
  from "6.prems" obtain ps h1 where c: "ToMongo_parts filters h = Some (ps, h1)"
    by (auto split: option.splits)
  from "6.IH" [OF c] obtain ds where ds: "filter_docs filters = Some ds"
    "list_all2 (repr h1) (map (\<lambda>a. VMap (MapAt a)) ps) ds" by blast
  then have len: "length ds = length ps" by (auto dest: list_all2_lengthD)
  show ?case
  proof (cases "length ps = 1")
    case True
    then obtain p where p: "ps = [p]" by (cases ps) auto
    with len obtain d where d: "ds = [d]" by (cases ds) auto
    from True c "6.prems" p have "a = p" "h' = h1" by auto
    then show ?thesis using ds p d by simp
  next
    case False
    with c "6.prems" have h': "h' = h1 @ [[(''$and'', VArr (map (\<lambda>a. VMap (MapAt a)) ps))]]"
      and a: "a = length h1" by (auto simp: alloc_def)
    have "repr h1 (VArr (map (\<lambda>a. VMap (MapAt a)) ps)) (Arr ds)"
      using ds(2) by simp
    from repr_snoc_single [OF this, of "''$and''"] show ?thesis
      using ds(1) False len h' a by simp
  qed
next
  case (7 filters h)
  from "7.prems" obtain ps h1 where c: "ToMongo_parts filters h = Some (ps, h1)"
    by (auto split: option.splits)
  from "7.IH" [OF c] obtain ds where ds: "filter_docs filters = Some ds"
    "list_all2 (repr h1) (map (\<lambda>a. VMap (MapAt a)) ps) ds" by blast
  then have len: "length ds = length ps" by (auto dest: list_all2_lengthD)
  show ?case
  proof (cases "length ps = 1")
    case True
    then obtain p where p: "ps = [p]" by (cases ps) auto
    with len obtain d where d: "ds = [d]" by (cases ds) auto
    from True c "7.prems" p have "a = p" "h' = h1" by auto
    then show ?thesis using ds p d by simp
  next
    case False
    with c "7.prems" have h': "h' = h1 @ [[(''$or'', VArr (map (\<lambda>a. VMap (MapAt a)) ps))]]"
      and a: "a = length h1" by (auto simp: alloc_def)
    have "repr h1 (VArr (map (\<lambda>a. VMap (MapAt a)) ps)) (Arr ds)"
      using ds(2) by simp
    from repr_snoc_single [OF this, of "''$or''"] show ?thesis
      using ds(1) False len h' a by simp
  qed
next
  case (8 h)
  then show ?case by simp
next
  case (9 flt h)
  from "9.prems" obtain e h1 where c: "ToMongo flt h = Some (e, h1)"
    and h': "h' = h1 @ [[(''$nor'', VArr [VMap (MapAt e)])]]" and a: "a = length h1"
    by (auto simp: alloc_def split: option.splits)
  from "9.IH" [OF c] obtain d where d: "filter_doc flt = Some d" "repr h1 (VMap (MapAt e)) d"
    by blast
  have "repr h1 (VArr [VMap (MapAt e)]) (Arr [d])" using d(2) by simp
  from repr_snoc_single [OF this, of "''$nor''"] show ?case
    using d(1) h' a by simp
next
  case (10 h)
  then show ?case by simp
next
  case (11 rest h)
  then show ?case by simp
next
  case (12 flt rest h)
  from "12.prems" obtain e h1 qs where c: "ToMongo flt h = Some (e, h1)"
    and r: "ToMongo_parts rest h1 = Some (qs, h')" and ps: "ps = e # qs"
    by (auto split: option.splits)
  from "12.IH"(1) [OF c] obtain d where d: "filter_doc flt = Some d" "repr h1 (VMap (MapAt e)) d"
    by blast
  from "12.IH"(2) [OF c refl r] obtain ds where ds: "filter_docs rest = Some ds"
    "list_all2 (repr h') (map (\<lambda>a. VMap (MapAt a)) qs) ds" by blast
  have "grows h1 h'" using ToMongo_frame(2) [OF r] by simp
  then have "repr h' (VMap (MapAt e)) d" using d(2) repr_grows by blast
  then show ?case using d(1) ds ps by simp
qed

section \<open>The loops of Combine compute the merged document\<close>

lemma merged_keys_dom:
  "merged r h acc \<Longrightarrow> map_of (cell h r) k = None \<longleftrightarrow> map_of acc k = None"
  unfolding merged_def
  by (metis map_of_eq_None_iff set_map)

lemma merged_lookup:
  assumes "merged r h acc" and "map_of (cell h r) k = Some x"
  shows "\<exists>e m. x = VMap (MapAt e) \<and> r < e \<and> e < length h \<and> map_of acc k = Some m \<and>
               cell h e = m"
proof -
  have "map_of acc k \<noteq> None"
    using merged_keys_dom [OF assms(1), of k] assms(2) by simp
  then obtain m where m: "map_of acc k = Some m" by auto
  with assms(1) obtain e where "map_of (cell h r) k = Some (VMap (MapAt e))" "r < e"
    "e < length h" "cell h e = m" unfolding merged_def by blast
  with assms(2) m show ?thesis by auto
qed

lemma update_keys_same:
  "map fst al = map fst bl \<Longrightarrow> map fst (AList.update k v al) = map fst (AList.update k w bl)"
  by (simp add: update_keys)

lemma merge_entry_merged:
  assumes m: "merged r h acc"
    and e': "r < e'" "e' < length h" "cell h e' = flds"
    and fresh: "\<forall>k. map_of (cell h r) k \<noteq> Some (VMap (MapAt e'))"
  shows "\<exists>h'. merge_entry r (k, VMap (MapAt e')) h = Some h' \<and>
           merged r h' (merge_pure acc (k, flds)) \<and> length h' = length h \<and>
           (\<forall>x. x \<noteq> r \<longrightarrow> (\<forall>k. map_of (cell h r) k \<noteq> Some (VMap (MapAt x))) \<longrightarrow>
                cell h' x = cell h x) \<and>
           (\<forall>k x. map_of (cell h' r) k = Some x \<longrightarrow>
                map_of (cell h r) k = Some x \<or> x = VMap (MapAt e'))"
proof (cases "map_of (cell h r) k")
  case None
  let ?h' = "h[r := AList.update k (VMap (MapAt e')) (cell h r)]"
  from m have r: "r < length h" by (simp add: merged_def)
  have accN: "map_of acc k = None" using None merged_keys_dom [OF m] by simp
  have st: "merge_entry r (k, VMap (MapAt e')) h = Some ?h'" using None by simp
  have cr: "cell ?h' r = AList.update k (VMap (MapAt e')) (cell h r)"
    using r by (simp add: cell_update_same)
  have co: "\<And>x. x \<noteq> r \<Longrightarrow> cell ?h' x = cell h x"
    by (simp add: cell_update_other)
  have mp: "merge_pure acc (k, flds) = AList.update k flds acc" using accN by simp
  have "merged r ?h' (AList.update k flds acc)"
    unfolding merged_def
  proof (intro conjI allI impI)
    show "r < length ?h'" using r by simp
    show "map fst (cell ?h' r) = map fst (AList.update k flds acc)"
      using m unfolding cr merged_def by (intro update_keys_same) simp
    show "distinct (map fst (AList.update k flds acc))"
      using m by (simp add: merged_def distinct_update)
  next
    fix k2 m2 assume a: "map_of (AList.update k flds acc) k2 = Some m2"
    show "\<exists>e. map_of (cell ?h' r) k2 = Some (VMap (MapAt e)) \<and> r < e \<and> e < length ?h' \<and>
              cell ?h' e = m2"
    proof (cases "k2 = k")
      case True
      with a have "m2 = flds" by (simp add: update_conv')
      then show ?thesis using True e' co [of e'] by (simp add: cr update_conv')
    next
      case False
      with a have "map_of acc k2 = Some m2" by (simp add: update_conv')
      with m obtain e where "map_of (cell h r) k2 = Some (VMap (MapAt e))" "r < e"
        "e < length h" "cell h e = m2" unfolding merged_def by blast
      then show ?thesis using False co [of e] by (simp add: cr update_conv')
    qed
  next
    fix k1 k2 x
    assume a: "map_of (cell ?h' r) k1 = Some x" "map_of (cell ?h' r) k2 = Some x"
    show "k1 = k2"
    proof (cases "k1 = k"; cases "k2 = k")
      assume "k1 \<noteq> k" "k2 \<noteq> k"
      with a have "map_of (cell h r) k1 = Some x" "map_of (cell h r) k2 = Some x"
        by (simp_all add: cr update_conv')
      with m show ?thesis unfolding merged_def by blast
    qed (use a fresh in \<open>auto simp: cr update_conv'\<close>)
  qed
  moreover have "\<forall>k2 x. map_of (cell ?h' r) k2 = Some x \<longrightarrow>
                map_of (cell h r) k2 = Some x \<or> x = VMap (MapAt e')"
    by (auto simp: cr update_conv' split: if_splits)
  ultimately show ?thesis using st mp co by auto
next
  case (Some x)
  from merged_lookup [OF m Some] obtain e ex where x: "x = VMap (MapAt e)" and e: "r < e"
    "e < length h" and ex: "map_of acc k = Some ex" "cell h e = ex" by blast
  let ?new = "write_all (AList.clearjunk flds) ex"
  let ?h' = "h[e := ?new]"
  from m have r: "r < length h" by (simp add: merged_def)
  have st: "merge_entry r (k, VMap (MapAt e')) h = Some ?h'"
    using Some x e' ex by (simp add: merge_fields_MapAt)
  have cr: "cell ?h' r = cell h r" using e by (simp add: cell_update_other)
  have ce: "cell ?h' e = ?new" using e by (simp add: cell_update_same)
  have co: "\<And>y. y \<noteq> e \<Longrightarrow> cell ?h' y = cell h y" by (simp add: cell_update_other)
  have mp: "merge_pure acc (k, flds) = AList.update k ?new acc" using ex by simp
  have kin: "k \<in> set (map fst acc)" using ex(1) by (metis map_of_eq_None_iff option.simps(3) set_map)
  have "merged r ?h' (AList.update k ?new acc)"
    unfolding merged_def
  proof (intro conjI allI impI)
    show "r < length ?h'" using r by simp
    show "map fst (cell ?h' r) = map fst (AList.update k ?new acc)"
      using m kin unfolding cr merged_def by (simp add: update_keys)
    show "distinct (map fst (AList.update k ?new acc))"
      using m by (simp add: merged_def distinct_update)
  next
    fix k2 m2 assume a: "map_of (AList.update k ?new acc) k2 = Some m2"
    show "\<exists>e2. map_of (cell ?h' r) k2 = Some (VMap (MapAt e2)) \<and> r < e2 \<and> e2 < length ?h' \<and>
              cell ?h' e2 = m2"
    proof (cases "k2 = k")
      case True
      with a have "m2 = ?new" by (simp add: update_conv')
      then show ?thesis using True Some x e ce by (simp add: cr)
    next
      case False
      with a have "map_of acc k2 = Some m2" by (simp add: update_conv')
      with m obtain e2 where e2: "map_of (cell h r) k2 = Some (VMap (MapAt e2))" "r < e2"
        "e2 < length h" "cell h e2 = m2" unfolding merged_def by blast
      have "e2 \<noteq> e"
      proof
        assume "e2 = e"
        with e2(1) Some x m have "k2 = k" unfolding merged_def by blast
        with False show False by simp
      qed
      then show ?thesis using e2 co [of e2] by (simp add: cr)
    qed
  next
    fix k1 k2 y
    assume "map_of (cell ?h' r) k1 = Some y" "map_of (cell ?h' r) k2 = Some y"
    with m show "k1 = k2" unfolding cr merged_def by blast
  qed
  moreover have "\<forall>y. y \<noteq> r \<longrightarrow> (\<forall>k. map_of (cell h r) k \<noteq> Some (VMap (MapAt y))) \<longrightarrow>
                cell ?h' y = cell h y"
  proof (intro allI impI)
    fix y assume f: "\<forall>k. map_of (cell h r) k \<noteq> Some (VMap (MapAt y))"
    from f Some x have "y \<noteq> e" by auto
    then show "cell ?h' y = cell h y" by (rule co)
  qed
  ultimately show ?thesis using st mp cr by auto
qed

lemma merge_all_merged:
  assumes "merged r h acc" and "incoming r h es d"
  shows "\<exists>h'. merge_all r es h = Some h' \<and> merged r h' (foldl merge_pure acc d) \<and>
              length h' = length h"
  using assms
proof (induction es arbitrary: h acc d)
  case Nil
  then show ?case by (simp add: incoming_def)
next
  case (Cons kv es)
  from Cons.prems(2) obtain km d' where d: "d = km # d'"
    by (cases d) (auto simp: incoming_def)
  obtain k x where kv: "kv = (k, x)" by (cases kv)
  obtain k0 flds where km: "km = (k0, flds)" by (cases km)
  from Cons.prems(2) obtain e' where x: "x = VMap (MapAt e')" and k0: "k0 = k"
    and e': "r < e'" "e' < length h" "cell h e' = flds"
    and fresh: "\<forall>k. map_of (cell h r) k \<noteq> Some (VMap (MapAt e'))"
    and rest: "list_all2 (\<lambda>kv km. fst kv = fst km \<and>
         (\<exists>e. snd kv = VMap (MapAt e) \<and> r < e \<and> e < length h \<and> cell h e = snd km \<and>
              (\<forall>k. map_of (cell h r) k \<noteq> Some (VMap (MapAt e))))) es d'"
    and dist: "VMap (MapAt e') \<notin> set (map snd es)" "distinct (map snd es)"
    unfolding incoming_def d kv km by auto
  from merge_entry_merged [OF Cons.prems(1) e' fresh, of k]
  obtain h1 where st: "merge_entry r (k, VMap (MapAt e')) h = Some h1"
    and m1: "merged r h1 (merge_pure acc (k, flds))" and len: "length h1 = length h"
    and frame: "\<And>y. y \<noteq> r \<Longrightarrow> (\<forall>k. map_of (cell h r) k \<noteq> Some (VMap (MapAt y))) \<Longrightarrow>
                cell h1 y = cell h y"
    and vals: "\<And>k y. map_of (cell h1 r) k = Some y \<Longrightarrow>
                map_of (cell h r) k = Some y \<or> y = VMap (MapAt e')"
    by blast
  have "list_all2 (\<lambda>kv km. fst kv = fst km \<and>
         (\<exists>e. snd kv = VMap (MapAt e) \<and> r < e \<and> e < length h1 \<and> cell h1 e = snd km \<and>
              (\<forall>k. map_of (cell h1 r) k \<noteq> Some (VMap (MapAt e))))) es d'"
    using rest
  proof (rule list.rel_mono_strong)
    fix p q
    assume p: "p \<in> set es"
      and pq: "fst p = fst q \<and>
         (\<exists>e. snd p = VMap (MapAt e) \<and> r < e \<and> e < length h \<and> cell h e = snd q \<and>
              (\<forall>k. map_of (cell h r) k \<noteq> Some (VMap (MapAt e))))"
    then obtain e where e: "snd p = VMap (MapAt e)" "r < e" "e < length h" "cell h e = snd q"
      "\<forall>k. map_of (cell h r) k \<noteq> Some (VMap (MapAt e))" by blast
    have ne: "e \<noteq> e'" using p e(1) dist(1) by force
    have "cell h1 e = cell h e" using frame [of e] e(2,5) by simp
    moreover have "\<forall>k. map_of (cell h1 r) k \<noteq> Some (VMap (MapAt e))"
      using vals e(5) ne by blast
    ultimately show "fst p = fst q \<and>
         (\<exists>e. snd p = VMap (MapAt e) \<and> r < e \<and> e < length h1 \<and> cell h1 e = snd q \<and>
              (\<forall>k. map_of (cell h1 r) k \<noteq> Some (VMap (MapAt e))))"
      using pq e len by auto
  qed
  then have inc1: "incoming r h1 es d'" using dist(2) by (simp add: incoming_def)
  from Cons.IH [OF m1 inc1] obtain h' where
    "merge_all r es h1 = Some h'" "merged r h' (foldl merge_pure (merge_pure acc (k, flds)) d')"
    "length h' = length h1" by blast
  then show ?case using st len by (simp add: d kv km x k0)
qed


lemma merged_grows:
  assumes "merged r h acc" and "grows h h'"
  shows "merged r h' acc"
proof -
  from assms(1) have r: "r < length h" by (simp add: merged_def)
  have cr: "cell h' r = cell h r" using grows_cell [OF assms(2) r] .
  have len: "length h \<le> length h'" using grows_length [OF assms(2)] .
  show ?thesis
    unfolding merged_def cr
  proof (intro conjI allI impI)
    show "r < length h'" using r len by simp
    show "map fst (cell h r) = map fst acc" using assms(1) by (simp add: merged_def)
    show "distinct (map fst acc)" using assms(1) by (simp add: merged_def)
  next
    fix k m assume "map_of acc k = Some m"
    with assms(1) obtain e where e: "map_of (cell h r) k = Some (VMap (MapAt e))" "r < e"
      "e < length h" "cell h e = m" unfolding merged_def by blast
    have "cell h' e = cell h e" using grows_cell [OF assms(2) e(3)] .
    with e len show "\<exists>e. map_of (cell h r) k = Some (VMap (MapAt e)) \<and> r < e \<and>
        e < length h' \<and> cell h' e = m" by auto
  next
    fix k k' x
    assume "map_of (cell h r) k = Some x" "map_of (cell h r) k' = Some x"
    with assms(1) show "k = k'" unfolding merged_def by blast
  qed
qed

lemma nth_lookup:
  "distinct (map fst al) \<Longrightarrow> i < length al \<Longrightarrow> map_of al (fst (al ! i)) = Some (snd (al ! i))"
  by (simp add: map_of_eq_Some_iff)

lemma merged_compiled:
  assumes "merged r h d"
  shows "compiled (Suc r) h r d"
proof -
  let ?c = "cell h r"
  from assms have r: "r < length h" and keys: "map fst ?c = map fst d"
    and dk: "distinct (map fst d)"
    and inj: "\<And>k k' x. map_of ?c k = Some x \<Longrightarrow> map_of ?c k' = Some x \<Longrightarrow> k = k'"
    unfolding merged_def by blast+
  have dc: "distinct (map fst ?c)" using keys dk by simp
  have len: "length ?c = length d" using keys by (metis length_map)
  have dv: "distinct (map snd ?c)"
    unfolding distinct_conv_nth
  proof (intro allI impI)
    fix i j assume i: "i < length (map snd ?c)" and j: "j < length (map snd ?c)" and ij: "i \<noteq> j"
    show "map snd ?c ! i \<noteq> map snd ?c ! j"
    proof
      assume eq: "map snd ?c ! i = map snd ?c ! j"
      have "map_of ?c (fst (?c ! i)) = Some (snd (?c ! i))"
        "map_of ?c (fst (?c ! j)) = Some (snd (?c ! j))"
        using nth_lookup [OF dc] i j by simp_all
      with eq i j have "fst (?c ! i) = fst (?c ! j)" using inj by simp
      then have "map fst ?c ! i = map fst ?c ! j" using i j by simp
      with dc i j ij show False by (simp add: distinct_conv_nth del: nth_map)
    qed
  qed
  have "list_all2 (\<lambda>kv km. fst kv = fst km \<and>
         (\<exists>e. snd kv = VMap (MapAt e) \<and> Suc r \<le> e \<and> e \<noteq> r \<and> e < length h \<and>
              cell h e = snd km)) ?c d"
    unfolding list_all2_conv_all_nth
  proof (intro conjI allI impI)
    show "length ?c = length d" by (rule len)
  next
    fix i assume i: "i < length ?c"
    then show "fst (?c ! i) = fst (d ! i)"
      using keys len by (metis nth_map)
  next
    fix i assume i: "i < length ?c"
    then have f: "fst (?c ! i) = fst (d ! i)" using keys len by (metis nth_map)
    have "map_of d (fst (d ! i)) = Some (snd (d ! i))"
      using nth_lookup [OF dk] i len by simp
    with assms obtain e where e: "map_of ?c (fst (d ! i)) = Some (VMap (MapAt e))" "r < e"
      "e < length h" "cell h e = snd (d ! i)" unfolding merged_def by blast
    have "map_of ?c (fst (?c ! i)) = Some (snd (?c ! i))"
      using nth_lookup [OF dc i] .
    with e(1) f have "snd (?c ! i) = VMap (MapAt e)" by simp
    with e show "\<exists>e. snd (?c ! i) = VMap (MapAt e) \<and> Suc r \<le> e \<and> e \<noteq> r \<and> e < length h \<and>
              cell h e = snd (d ! i)" by auto
  qed
  then show ?thesis using r dk dv by (simp add: compiled_def)
qed

lemma compiled_keys: "compiled b h a d \<Longrightarrow> map fst (cell h a) = map fst d"
  unfolding compiled_def
  by (auto simp: list_all2_conv_all_nth intro!: nth_equalityI)

lemma compiled_incoming:
  assumes c: "compiled b h1 m dc" and m: "merged r h acc" and g: "grows h h1"
    and b: "length h \<le> b"
  shows "incoming r h1 (entries h1 (MapAt m)) dc"
proof -
  from m have r: "r < length h" by (simp add: merged_def)
  have cr: "cell h1 r = cell h r" using grows_cell [OF g r] .
  have "distinct (map fst (cell h1 m))"
    using compiled_keys [OF c] c by (simp add: compiled_def)
  then have es: "entries h1 (MapAt m) = cell h1 m" by simp
  from c have l: "list_all2 (\<lambda>kv km. fst kv = fst km \<and>
         (\<exists>e. snd kv = VMap (MapAt e) \<and> b \<le> e \<and> e \<noteq> m \<and> e < length h1 \<and>
              cell h1 e = snd km)) (cell h1 m) dc"
    and dv: "distinct (map snd (cell h1 m))" by (simp_all add: compiled_def)
  have "list_all2 (\<lambda>kv km. fst kv = fst km \<and>
         (\<exists>e. snd kv = VMap (MapAt e) \<and> r < e \<and> e < length h1 \<and> cell h1 e = snd km \<and>
              (\<forall>k. map_of (cell h1 r) k \<noteq> Some (VMap (MapAt e))))) (cell h1 m) dc"
    using l
  proof (rule list.rel_mono_strong)
    fix p q
    assume "fst p = fst q \<and>
         (\<exists>e. snd p = VMap (MapAt e) \<and> b \<le> e \<and> e \<noteq> m \<and> e < length h1 \<and>
              cell h1 e = snd q)"
    then obtain e where f: "fst p = fst q" and e: "snd p = VMap (MapAt e)" "b \<le> e"
      "e < length h1" "cell h1 e = snd q" by blast
    have "\<forall>k. map_of (cell h1 r) k \<noteq> Some (VMap (MapAt e))"
    proof (intro allI notI)
      fix k assume "map_of (cell h1 r) k = Some (VMap (MapAt e))"
      then have "map_of (cell h r) k = Some (VMap (MapAt e))" by (simp add: cr)
      from merged_lookup [OF m this] have "e < length h" by auto
      with e(2) b show False by simp
    qed
    with f e r b show "fst p = fst q \<and>
         (\<exists>e. snd p = VMap (MapAt e) \<and> r < e \<and> e < length h1 \<and> cell h1 e = snd q \<and>
              (\<forall>k. map_of (cell h1 r) k \<noteq> Some (VMap (MapAt e))))" by auto
  qed
  with dv show ?thesis unfolding incoming_def es by simp
qed

lemma compiled_op_doc:
  "compiled (length h) (h @ [[(field, v)], [(op, VMap (MapAt (length h)))]]) (Suc (length h))
     [(op, [(field, v)])]"
  by (simp add: compiled_def cell_def nth_append)

text \<open>
  Compiling an update without \<open>setFieldsUpdate\<close> returns a map that holds the document
  of the update, in maps that the call allocated.
\<close>

lemma ToBsonUpdate_compiled:
  "setFields_free u \<longrightarrow>
     (\<forall>a h'. ToBsonUpdate u h = Some (a, h') \<longrightarrow>
        (\<exists>d. update_doc u = Some d \<and> compiled (length h) h' a d))"
  "(\<forall>x \<in> set us. case x of None \<Rightarrow> True | Some c \<Rightarrow> setFields_free c) \<longrightarrow>
     (\<forall>acc g'. merged r g acc \<longrightarrow> ToBsonUpdate_loop r us g = Some g' \<longrightarrow>
        (\<exists>d. update_docs us acc = Some d \<and> merged r g' d))"
proof (induction u h and r us g rule: ToBsonUpdate_ToBsonUpdate_loop.induct)
  case (7 updates h)
  show ?case
  proof (intro impI allI)
    fix a h'
    assume sf: "setFields_free (combinedUpdate updates)"
      and c: "ToBsonUpdate (combinedUpdate updates) h = Some (a, h')"
    from c have l: "ToBsonUpdate_loop (length h) updates (h @ [[]]) = Some h'"
      and a: "a = length h"
      by (auto split: option.splits)
    have "merged (length h) (h @ [[]]) []"
      by (simp add: merged_def cell_def)
    with 7 sf l obtain d where d: "update_docs updates [] = Some d" "merged (length h) h' d"
      by auto
    from merged_compiled [OF d(2)] have "compiled (length h) h' a d"
      unfolding compiled_def a
      by (auto elim!: list.rel_mono_strong)
    with d(1) show "\<exists>d. update_doc (combinedUpdate updates) = Some d \<and>
        compiled (length h) h' a d" by simp
  qed
next
  case (16 result u rest h)
  show ?case
  proof (intro impI allI)
    fix acc g'
    assume sf: "\<forall>x \<in> set (Some u # rest). case x of None \<Rightarrow> True | Some c \<Rightarrow> setFields_free c"
      and m: "merged result h acc"
      and l: "ToBsonUpdate_loop result (Some u # rest) h = Some g'"
    from l obtain a h1 h2 where c: "ToBsonUpdate u h = Some (a, h1)"
      and ma: "merge_all result (entries h1 (MapAt a)) h1 = Some h2"
      and l2: "ToBsonUpdate_loop result rest h2 = Some g'"
      by (auto split: option.splits)
    from sf have sfu: "setFields_free u"
      and sfr: "\<forall>x \<in> set rest. case x of None \<Rightarrow> True | Some c \<Rightarrow> setFields_free c"
      by simp_all
    from "16.IH"(1) sfu c obtain dc where dc: "update_doc u = Some dc"
      "compiled (length h) h1 a dc" by blast
    have g: "grows h h1" using ToBsonUpdate_frame(1) [of u h] sfu c by blast
    have m1: "merged result h1 acc" using merged_grows [OF m g] .
    have inc: "incoming result h1 (entries h1 (MapAt a)) dc"
      using compiled_incoming [OF dc(2) m g] by simp
    from merge_all_merged [OF m1 inc] ma
    have m2: "merged result h2 (foldl merge_pure acc dc)" by auto
    from "16.IH"(2) [OF c refl ma] sfr m2 l2
    obtain d where "update_docs rest (foldl merge_pure acc dc) = Some d" "merged result g' d"
      by blast
    then show "\<exists>d. update_docs (Some u # rest) acc = Some d \<and> merged result g' d"
      using dc(1) by simp
  qed
qed (auto simp: op_doc_result compiled_op_doc)

section \<open>What compilation leaves alone\<close>

lemma leaves_repr: "list_all2 (repr h) (map snd flds) (map snd (map (\<lambda>(f, v). (f, Leaf v)) flds))"
  by (induction flds) auto

lemma compiled_repr:
  assumes "compiled b h a d"
  shows "repr h (VMap (MapAt a)) (udoc_doc d)"
proof -
  let ?kds = "map (\<lambda>(k, flds). (k, Doc (map (\<lambda>(f, v). (f, Leaf v)) flds))) d"
  from assms have a: "a < length h"
    and l: "list_all2 (\<lambda>kv km. fst kv = fst km \<and>
         (\<exists>e. snd kv = VMap (MapAt e) \<and> b \<le> e \<and> e \<noteq> a \<and> e < length h \<and>
              cell h e = snd km)) (cell h a) d"
    by (simp_all add: compiled_def)
  have keys: "map fst (cell h a) = map fst ?kds"
    using compiled_keys [OF assms] by (simp add: case_prod_unfold comp_def)
  have "list_all2 (repr h) (map snd (cell h a)) (map snd ?kds)"
    unfolding list_all2_conv_all_nth
  proof (intro conjI allI impI)
    show "length (map snd (cell h a)) = length (map snd ?kds)"
      using l by (simp add: list_all2_lengthD)
  next
    fix i assume "i < length (map snd (cell h a))"
    then have i: "i < length (cell h a)" "i < length d"
      using l by (simp_all add: list_all2_lengthD [symmetric])
    from l i obtain e where e: "snd (cell h a ! i) = VMap (MapAt e)" "e < length h"
      "cell h e = snd (d ! i)" by (auto simp: list_all2_conv_all_nth)
    have "repr h (VMap (MapAt e)) (Doc (map (\<lambda>(f, v). (f, Leaf v)) (snd (d ! i))))"
      using e(2,3) leaves_repr [of h "snd (d ! i)"]
      by (simp add: case_prod_unfold comp_def)
    then show "repr h (map snd (cell h a) ! i) (map snd ?kds ! i)"
      using i e(1) by (simp add: case_prod_unfold)
  qed
  with a keys show ?thesis by (simp add: udoc_doc_def)
qed

text \<open>
  C1, amended. \<open>Filter.ToMongo\<close> only allocates: the maps that existed before the call
  keep their contents, and the map it returns is a new one, which holds the document of
  the filter; two successive compilations of a filter return two maps that hold the
  same document. The same is true of \<open>Update.ToBsonUpdate\<close> on every update without
  a \<open>SetFields\<close> node. Compiling a \<open>SetFields\<close> node allocates one map, whose
  \<open>$set\<close> value is the caller's map itself. \<open>Pipeline.ToPipeline\<close> writes nothing
  and returns the stages that the builder holds. The values a node holds are passed
  on as they are (the leaves of the document), references included.
\<close>

theorem compile_allocates_only:
  "(ToMongo f h = Some (a, h') \<longrightarrow>
      grows h h' \<and> length h \<le> a \<and> a < length h' \<and>
      (\<exists>d. filter_doc f = Some d \<and> repr h' (VMap (MapAt a)) d \<and>
           (\<forall>a2 h2. ToMongo f h' = Some (a2, h2) \<longrightarrow>
              grows h' h2 \<and> a2 \<noteq> a \<and>
              repr h2 (VMap (MapAt a)) d \<and> repr h2 (VMap (MapAt a2)) d))) \<and>
   (setFields_free u \<longrightarrow> ToBsonUpdate u h = Some (b, g) \<longrightarrow>
      grows h g \<and> length h \<le> b \<and> b < length g \<and>
      (\<exists>d. update_doc u = Some d \<and> repr g (VMap (MapAt b)) (udoc_doc d) \<and>
           (\<forall>b2 g2. ToBsonUpdate u g = Some (b2, g2) \<longrightarrow>
              grows g g2 \<and> b2 \<noteq> b \<and>
              repr g2 (VMap (MapAt b)) (udoc_doc d) \<and> repr g2 (VMap (MapAt b2)) (udoc_doc d)))) \<and>
   ToBsonUpdate (setFieldsUpdate m) h = Some (length h, h @ [[(''$set'', VMap m)]]) \<and>
   ToPipeline p = stages p"
proof (intro conjI impI)
  assume c: "ToMongo f h = Some (a, h')"
  note fr = ToMongo_frame(1) [OF c]
  show "grows h h'" "length h \<le> a" "a < length h'" using fr by simp_all
  from ToMongo_repr(1) [OF c] obtain d where d: "filter_doc f = Some d"
    "repr h' (VMap (MapAt a)) d" by blast
  have "\<forall>a2 h2. ToMongo f h' = Some (a2, h2) \<longrightarrow>
              grows h' h2 \<and> a2 \<noteq> a \<and>
              repr h2 (VMap (MapAt a)) d \<and> repr h2 (VMap (MapAt a2)) d"
  proof (intro allI impI)
    fix a2 h2 assume c2: "ToMongo f h' = Some (a2, h2)"
    note fr2 = ToMongo_frame(1) [OF c2]
    from ToMongo_repr(1) [OF c2] d(1) have "repr h2 (VMap (MapAt a2)) d" by auto
    moreover have "repr h2 (VMap (MapAt a)) d" using repr_grows [OF d(2)] fr2 by simp
    ultimately show "grows h' h2 \<and> a2 \<noteq> a \<and>
              repr h2 (VMap (MapAt a)) d \<and> repr h2 (VMap (MapAt a2)) d"
      using fr fr2 by auto
  qed
  with d show "\<exists>d. filter_doc f = Some d \<and> repr h' (VMap (MapAt a)) d \<and>
           (\<forall>a2 h2. ToMongo f h' = Some (a2, h2) \<longrightarrow>
              grows h' h2 \<and> a2 \<noteq> a \<and>
              repr h2 (VMap (MapAt a)) d \<and> repr h2 (VMap (MapAt a2)) d)" by blast
next
  assume sf: "setFields_free u" and c: "ToBsonUpdate u h = Some (b, g)"
  have fr: "grows h g \<and> length h \<le> b \<and> b < length g"
    using ToBsonUpdate_frame(1) [of u h] sf c by blast
  then show "grows h g" "length h \<le> b" "b < length g" by simp_all
  from ToBsonUpdate_compiled(1) [of u h] sf c obtain d where d: "update_doc u = Some d"
    "compiled (length h) g b d" by blast
  have r: "repr g (VMap (MapAt b)) (udoc_doc d)" using compiled_repr [OF d(2)] .
  have "\<forall>b2 g2. ToBsonUpdate u g = Some (b2, g2) \<longrightarrow>
              grows g g2 \<and> b2 \<noteq> b \<and>
              repr g2 (VMap (MapAt b)) (udoc_doc d) \<and> repr g2 (VMap (MapAt b2)) (udoc_doc d)"
  proof (intro allI impI)
    fix b2 g2 assume c2: "ToBsonUpdate u g = Some (b2, g2)"
    have fr2: "grows g g2 \<and> length g \<le> b2 \<and> b2 < length g2"
      using ToBsonUpdate_frame(1) [of u g] sf c2 by blast
    from ToBsonUpdate_compiled(1) [of u g] sf c2 d(1) have "compiled (length g) g2 b2 d"
      by auto
    then have "repr g2 (VMap (MapAt b2)) (udoc_doc d)" by (rule compiled_repr)
    moreover have "repr g2 (VMap (MapAt b)) (udoc_doc d)" using repr_grows [OF r] fr2 by simp
    ultimately show "grows g g2 \<and> b2 \<noteq> b \<and>
              repr g2 (VMap (MapAt b)) (udoc_doc d) \<and> repr g2 (VMap (MapAt b2)) (udoc_doc d)"
      using fr fr2 by auto
  qed
  with d(1) r show "\<exists>d. update_doc u = Some d \<and> repr g (VMap (MapAt b)) (udoc_doc d) \<and>
           (\<forall>b2 g2. ToBsonUpdate u g = Some (b2, g2) \<longrightarrow>
              grows g g2 \<and> b2 \<noteq> b \<and>
              repr g2 (VMap (MapAt b)) (udoc_doc d) \<and> repr g2 (VMap (MapAt b2)) (udoc_doc d))"
    by blast
qed (simp_all add: alloc_def ToPipeline_def)

theorem compile_allocates_only_witness:
  "ToMongo (opFilter ''age'' ''$gte'' (VInt 18)) [[(''x'', VInt 0)]] =
     Some (2, [[(''x'', VInt 0)], [(''$gte'', VInt 18)], [(''age'', VMap (MapAt 1))]]) \<and>
   filter_doc (opFilter ''age'' ''$gte'' (VInt 18)) =
     Some (Doc [(''age'', Doc [(''$gte'', Leaf (VInt 18))])]) \<and>
   ToMongo (opFilter ''age'' ''$gte'' (VInt 18))
       [[(''x'', VInt 0)], [(''$gte'', VInt 18)], [(''age'', VMap (MapAt 1))]] =
     Some (4, [[(''x'', VInt 0)], [(''$gte'', VInt 18)], [(''age'', VMap (MapAt 1))],
               [(''$gte'', VInt 18)], [(''age'', VMap (MapAt 3))]]) \<and>
   grows [[(''x'', VInt 0)]]
         [[(''x'', VInt 0)], [(''$gte'', VInt 18)], [(''age'', VMap (MapAt 1))]] \<and>
   repr [[(''x'', VInt 0)], [(''$gte'', VInt 18)], [(''age'', VMap (MapAt 1))],
         [(''$gte'', VInt 18)], [(''age'', VMap (MapAt 3))]] (VMap (MapAt 2))
        (Doc [(''age'', Doc [(''$gte'', Leaf (VInt 18))])]) \<and>
   repr [[(''x'', VInt 0)], [(''$gte'', VInt 18)], [(''age'', VMap (MapAt 1))],
         [(''$gte'', VInt 18)], [(''age'', VMap (MapAt 3))]] (VMap (MapAt 4))
        (Doc [(''age'', Doc [(''$gte'', Leaf (VInt 18))])]) \<and>
   setFields_free (combinedUpdate [Some (setUpdate ''a'' (VInt 1)), Some (setUpdate ''a'' (VInt 2))]) \<and>
   ToBsonUpdate (combinedUpdate [Some (setUpdate ''a'' (VInt 1)), Some (setUpdate ''a'' (VInt 2))]) [] =
     Some (0, [[(''$set'', VMap (MapAt 1))], [(''a'', VInt 2)], [(''$set'', VMap (MapAt 1))],
               [(''a'', VInt 2)], [(''$set'', VMap (MapAt 3))]]) \<and>
   update_doc (combinedUpdate [Some (setUpdate ''a'' (VInt 1)), Some (setUpdate ''a'' (VInt 2))]) =
     Some [(''$set'', [(''a'', VInt 2)])] \<and>
   ToBsonUpdate (combinedUpdate [Some (setUpdate ''a'' (VInt 1)), Some (setUpdate ''a'' (VInt 2))])
       [[(''$set'', VMap (MapAt 1))], [(''a'', VInt 2)], [(''$set'', VMap (MapAt 1))],
        [(''a'', VInt 2)], [(''$set'', VMap (MapAt 3))]] =
     Some (5, [[(''$set'', VMap (MapAt 1))], [(''a'', VInt 2)], [(''$set'', VMap (MapAt 1))],
               [(''a'', VInt 2)], [(''$set'', VMap (MapAt 3))],
               [(''$set'', VMap (MapAt 6))], [(''a'', VInt 2)], [(''$set'', VMap (MapAt 6))],
               [(''a'', VInt 2)], [(''$set'', VMap (MapAt 8))]]) \<and>
   repr [[(''$set'', VMap (MapAt 1))], [(''a'', VInt 2)], [(''$set'', VMap (MapAt 1))],
         [(''a'', VInt 2)], [(''$set'', VMap (MapAt 3))],
         [(''$set'', VMap (MapAt 6))], [(''a'', VInt 2)], [(''$set'', VMap (MapAt 6))],
         [(''a'', VInt 2)], [(''$set'', VMap (MapAt 8))]] (VMap (MapAt 0))
        (udoc_doc [(''$set'', [(''a'', VInt 2)])]) \<and>
   repr [[(''$set'', VMap (MapAt 1))], [(''a'', VInt 2)], [(''$set'', VMap (MapAt 1))],
         [(''a'', VInt 2)], [(''$set'', VMap (MapAt 3))],
         [(''$set'', VMap (MapAt 6))], [(''a'', VInt 2)], [(''$set'', VMap (MapAt 6))],
         [(''a'', VInt 2)], [(''$set'', VMap (MapAt 8))]] (VMap (MapAt 5))
        (udoc_doc [(''$set'', [(''a'', VInt 2)])])"
proof -
  let ?f = "opFilter ''age'' ''$gte'' (VInt 18)"
  let ?h = "[[(''x'', VInt 0)]]"
  let ?h1 = "[[(''x'', VInt 0)], [(''$gte'', VInt 18)], [(''age'', VMap (MapAt 1))]]"
  let ?h2 = "[[(''x'', VInt 0)], [(''$gte'', VInt 18)], [(''age'', VMap (MapAt 1))],
              [(''$gte'', VInt 18)], [(''age'', VMap (MapAt 3))]]"
  let ?u = "combinedUpdate [Some (setUpdate ''a'' (VInt 1)), Some (setUpdate ''a'' (VInt 2))]"
  let ?g = "[[(''$set'', VMap (MapAt 1))], [(''a'', VInt 2)], [(''$set'', VMap (MapAt 1))],
             [(''a'', VInt 2)], [(''$set'', VMap (MapAt 3))]]"
  let ?g2 = "[[(''$set'', VMap (MapAt 1))], [(''a'', VInt 2)], [(''$set'', VMap (MapAt 1))],
              [(''a'', VInt 2)], [(''$set'', VMap (MapAt 3))],
              [(''$set'', VMap (MapAt 6))], [(''a'', VInt 2)], [(''$set'', VMap (MapAt 6))],
              [(''a'', VInt 2)], [(''$set'', VMap (MapAt 8))]]"
  have 1: "ToMongo ?f ?h = Some (2, ?h1)" by (simp add: alloc_def)
  have 2: "filter_doc ?f = Some (Doc [(''age'', Doc [(''$gte'', Leaf (VInt 18))])])" by simp
  have 3: "ToMongo ?f ?h1 = Some (4, ?h2)" by (simp add: alloc_def)
  have 4: "setFields_free ?u" by simp
  have 5: "ToBsonUpdate ?u [] = Some (0, ?g)" by (simp add: op_doc_def alloc_def cell_def)
  have 6: "update_doc ?u = Some [(''$set'', [(''a'', VInt 2)])]" by simp
  have 7: "ToBsonUpdate ?u ?g = Some (5, ?g2)" by (simp add: op_doc_def alloc_def cell_def)
  from compile_allocates_only [of ?f ?h 2 ?h1, THEN conjunct1] 1 2 3
  have a: "grows ?h ?h1"
    "repr ?h2 (VMap (MapAt 2)) (Doc [(''age'', Doc [(''$gte'', Leaf (VInt 18))])])"
    "repr ?h2 (VMap (MapAt 4)) (Doc [(''age'', Doc [(''$gte'', Leaf (VInt 18))])])"
    by auto
  from compile_allocates_only [of _ "[]" _ _ ?u 0 ?g, THEN conjunct2, THEN conjunct1] 4 5 6 7
  have b: "repr ?g2 (VMap (MapAt 0)) (udoc_doc [(''$set'', [(''a'', VInt 2)])])"
    "repr ?g2 (VMap (MapAt 5)) (udoc_doc [(''$set'', [(''a'', VInt 2)])])"
    by auto
  show ?thesis using 1 2 3 4 5 6 7 a b by (intro conjI)
qed

end
